theory Spec2Isabelle
  imports Main "HOL-Library.Multiset"
begin

section \<open>Strings of the source language\<close>

text \<open>
  A JavaScript string is a sequence of UTF-16 code units. Where the source only handles
  characters below 256 the model uses \<open>string\<close>; the poker cards carry suit symbols
  above that range, so they are lists of code units (\<open>ustring\<close>).
\<close>

type_synonym ustring = "int list"

definition u :: "string \<Rightarrow> ustring" where
  "u s = map of_char s"

definition HEART :: int where "HEART = 9829"
definition DIAMOND :: int where "DIAMOND = 9830"
definition SPADE :: int where "SPADE = 9824"
definition CLUB :: int where "CLUB = 9827"

text \<open>\<open>Array.prototype.indexOf\<close>: the first index of the value, or \<open>-1\<close>.\<close>

fun indexOfFrom :: "'a list \<Rightarrow> 'a \<Rightarrow> int \<Rightarrow> int" where
  "indexOfFrom [] x i = -1"
| "indexOfFrom (y # ys) x i = (if y = x then i else indexOfFrom ys x (i + 1))"

definition indexOf :: "'a list \<Rightarrow> 'a \<Rightarrow> int" where
  "indexOf xs x = indexOfFrom xs x 0"

section \<open>Poker hand ranking (11-katas-2-tasks.js, getPokerHandRank)\<close>

datatype PokerRank =
  StraightFlush | FourOfKind | FullHouse | Flush | Straight
  | ThreeOfKind | TwoPairs | OnePair | HighCard

text \<open>
  \<open>parseInt(card)\<close> with no radix: leading white space is skipped, a sign is read, a
  \<open>0x\<close> prefix switches to base 16, and the longest prefix of digits is converted;
  \<open>None\<close> stands for \<open>NaN\<close>.
\<close>

definition isStrWhiteSpace :: "int \<Rightarrow> bool" where
  "isStrWhiteSpace c \<longleftrightarrow>
     c \<in> set [9, 10, 11, 12, 13, 32, 160, 5760, 8232, 8233, 8239, 8287, 12288, 65279]
     \<or> (8192 \<le> c \<and> c \<le> 8202)"

definition digitValue :: "int \<Rightarrow> int option" where
  "digitValue c =
     (if 48 \<le> c \<and> c \<le> 57 then Some (c - 48)
      else if 97 \<le> c \<and> c \<le> 122 then Some (c - 97 + 10)
      else if 65 \<le> c \<and> c \<le> 90 then Some (c - 65 + 10)
      else None)"

definition isRadixDigit :: "int \<Rightarrow> int \<Rightarrow> bool" where
  "isRadixDigit r c = (case digitValue c of None \<Rightarrow> False | Some d \<Rightarrow> d < r)"

definition parseDigits :: "int \<Rightarrow> ustring \<Rightarrow> int option" where
  "parseDigits r s =
     (let ds = takeWhile (isRadixDigit r) s
      in if ds = [] then None
         else Some (foldl (\<lambda>acc c. acc * r + the (digitValue c)) 0 ds))"

definition parseInt :: "ustring \<Rightarrow> int option" where
  "parseInt str =
     (let s = dropWhile isStrWhiteSpace str;
          sign = (case s of c # _ \<Rightarrow> if c = 45 then (-1::int) else 1 | [] \<Rightarrow> 1);
          s1 = (case s of c # t \<Rightarrow> if c = 45 \<or> c = 43 then t else s | [] \<Rightarrow> s);
          hex = (case s1 of a # b # _ \<Rightarrow> a = 48 \<and> (b = 120 \<or> b = 88) | _ \<Rightarrow> False);
          num = (if hex then parseDigits 16 (drop 2 s1) else parseDigits 10 s1)
      in map_option (\<lambda>n. sign * n) num)"

definition getNumber :: "ustring \<Rightarrow> ustring" where
  "getNumber crd = butlast crd"

definition getType :: "ustring \<Rightarrow> ustring" where
  "getType crd = (if crd = [] then [] else [last crd])"

text \<open>
  \<open>handNumbers\<close> is a sparse array: \<open>None\<close> is a hole. A write at index \<open>-1\<close> (rank not
  found) creates the property \<open>"-1"\<close>, which is no array element and which \<open>filter\<close>
  never visits, so the elements stay as they are.
\<close>

type_synonym sparse = "nat option list"

definition bumpAt :: "sparse \<Rightarrow> int \<Rightarrow> sparse" where
  "bumpAt acc index =
     (if index < 0 then acc
      else let i = nat index;
               acc' = (if i < length acc then acc else acc @ replicate (i + 1 - length acc) None)
           in acc'[i := (case acc' ! i of
                           None \<Rightarrow> Some 1
                         | Some c \<Rightarrow> if c \<noteq> 0 then Some (c + 1) else Some 1)])"

definition countEqualNumber :: "sparse \<Rightarrow> nat \<Rightarrow> nat" where
  "countEqualNumber arr cnt = length (filter (\<lambda>numberCount. numberCount = Some cnt) arr)"

fun countEqualTypesFrom :: "ustring option \<Rightarrow> ustring list \<Rightarrow> nat \<Rightarrow> nat" where
  "countEqualTypesFrom prev [] acc = acc"
| "countEqualTypesFrom prev (crd # rest) acc =
     (let isEqualType = (case prev of None \<Rightarrow> True | Some p \<Rightarrow> getType crd = getType p)
      in countEqualTypesFrom (Some crd) rest (if isEqualType then acc + 1 else 0))"

fun everyConsecutive :: "int option \<Rightarrow> int list \<Rightarrow> bool" where
  "everyConsecutive prev [] = True"
| "everyConsecutive prev (number # rest) =
     ((case prev of None \<Rightarrow> True | Some p \<Rightarrow> number = p + 1)
      \<and> everyConsecutive (Some number) rest)"

definition rankNames :: "ustring list" where
  "rankNames = map (\<lambda>c. u [c]) ''23456789'' @ map u [''10'', ''J'', ''Q'', ''K'']"

definition getPokerHandRank :: "ustring list \<Rightarrow> PokerRank" where
  "getPokerHandRank hand =
     (let numbers = (if list_ex (\<lambda>crd. parseInt crd = Some 2) hand
                     then u ''A'' # rankNames else rankNames @ [u ''A'']);
          countEqualTypes = countEqualTypesFrom None hand 0;
          handNumbers = foldl (\<lambda>acc crd. bumpAt acc (indexOf numbers (getNumber crd))) [] hand;
          hasOrder = everyConsecutive None
                       (sort (map (\<lambda>crd. indexOf numbers (getNumber crd)) hand));
          hasOneType = (countEqualTypes = 5)
      in if hasOrder \<and> hasOneType then StraightFlush
         else if hasOrder then Straight
         else if hasOneType then Flush
         else if countEqualNumber handNumbers 2 \<noteq> 0 \<and> countEqualNumber handNumbers 3 \<noteq> 0
           then FullHouse
         else if countEqualNumber handNumbers 2 = 1 then OnePair
         else if countEqualNumber handNumbers 2 = 2 then TwoPairs
         else if countEqualNumber handNumbers 3 \<noteq> 0 then ThreeOfKind
         else if countEqualNumber handNumbers 4 \<noteq> 0 then FourOfKind
         else HighCard)"

definition mkCard :: "string \<Rightarrow> int \<Rightarrow> ustring" where
  "mkCard r s = u r @ [s]"

section \<open>Bank account parsing (11-katas-2-tasks.js, parseBankAccount)\<close>

text \<open>The dot of a regular expression matches every code unit but the line terminators.\<close>

definition isDot :: "char \<Rightarrow> bool" where
  "isDot c \<longleftrightarrow> c \<noteq> CHR 0x0A \<and> c \<noteq> CHR 0x0D"

text \<open>
  \<open>line.split(/(.{3})/)\<close>: the pieces between the matches of three dot characters, each
  followed by the captured match; the text after the last match is the last piece.
  \<open>pending\<close> holds, reversed, the characters passed since the last match.
\<close>

fun splitTriples :: "string \<Rightarrow> string \<Rightarrow> string list" where
  "splitTriples pending (a # b # c # rest) =
     (if isDot a \<and> isDot b \<and> isDot c
      then rev pending # [a, b, c] # splitTriples [] rest
      else splitTriples (a # pending) (b # c # rest))"
| "splitTriples pending (a # rest) = splitTriples (a # pending) rest"
| "splitTriples pending [] = [rev pending]"

definition chunks :: "string \<Rightarrow> string list" where
  "chunks line = filter (\<lambda>piece. piece \<noteq> []) (splitTriples [] line)"

text \<open>\<open>str.split('\n')\<close>, and more generally the split at one separator character.\<close>

fun splitOn :: "char \<Rightarrow> string \<Rightarrow> string \<Rightarrow> string list" where
  "splitOn sep pending [] = [rev pending]"
| "splitOn sep pending (c # rest) =
     (if c = sep then rev pending # splitOn sep [] rest else splitOn sep (c # pending) rest)"

text \<open>
  \<open>acc[idx] += subline\<close>: beyond the end of the array the old value is \<open>undefined\<close>,
  which the concatenation turns into the text \<open>undefined\<close>; \<open>idx\<close> grows by one at a
  time, so it is at most the length of the array.
\<close>

fun appendAt :: "string list \<Rightarrow> nat \<Rightarrow> string \<Rightarrow> string list" where
  "appendAt acc idx subline =
     (if idx < length acc then acc[idx := acc ! idx @ subline]
      else acc @ replicate (idx - length acc) [] @ [''undefined'' @ subline])"

fun forEachAppend :: "string list \<Rightarrow> nat \<Rightarrow> string list \<Rightarrow> string list" where
  "forEachAppend acc idx [] = acc"
| "forEachAppend acc idx (subline # rest) = forEachAppend (appendAt acc idx subline) (idx + 1) rest"

definition nums :: "string list" where
  "nums = [
     '' _ | ||_|'',
     ''     |  |'',
     '' _  _||_ '',
     '' _  _| _|'',
     ''   |_|  |'',
     '' _ |_  _|'',
     '' _ |_ |_|'',
     '' _   |  |'',
     '' _ |_||_|'',
     '' _ |_| _|'']"

text \<open>
  The last \<open>reduce\<close> has no initial value: it starts from the first element. The
  accumulator array has nine elements at least, so the array it runs over is not empty.
\<close>

definition parseBankAccount :: "string \<Rightarrow> int" where
  "parseBankAccount bankAccount =
     (let glyphs = foldl (\<lambda>acc line. forEachAppend acc 0 line) (replicate 9 [])
                     (map chunks (splitOn CHR 0x0A [] bankAccount));
          digits = map (\<lambda>num. indexOf nums num) glyphs
      in foldl (\<lambda>acc num. acc * 10 + num) (hd digits) (tl digits))"

definition NL :: string where
  "NL = [CHR 0x0A]"

definition documentedAccount :: string where
  "documentedAccount =
     ''    _  _     _  _  _  _  _ '' @ NL @
     ''  | _| _||_||_ |_   ||_||_|'' @ NL @
     ''  ||_  _|  | _||_|  ||_| _|'' @ NL"

text \<open>
  The block that writes given digits: line \<open>r\<close> holds row \<open>r\<close> of each digit's glyph, and
  every line ends with a line feed, as in the documented examples.
\<close>

definition glyphRow :: "nat \<Rightarrow> nat \<Rightarrow> string" where
  "glyphRow r d = take 3 (drop (3 * r) (nums ! d))"

definition renderLine :: "nat \<Rightarrow> nat list \<Rightarrow> string" where
  "renderLine r ds = concat (map (glyphRow r) ds)"

definition renderAccount :: "nat list \<Rightarrow> string" where
  "renderAccount ds = renderLine 0 ds @ NL @ renderLine 1 ds @ NL @ renderLine 2 ds @ NL"

definition digitsNumber :: "nat list \<Rightarrow> int" where
  "digitsNumber ds = int (foldl (\<lambda>acc d. acc * 10 + d) 0 ds)"

section \<open>Zig-zag matrix (10-katas-1-tasks.js, getZigZagMatrix)\<close>

text \<open>
  The first loop builds the anti-diagonals: \<open>counter += 1\<close> numbers the elements of each
  new diagonal. The variables of the loop form the state.
\<close>

record build =
  step :: int
  diagonalLength :: int
  counter :: int
  diagonals :: "int list list"

definition pushDiagonal :: "nat \<Rightarrow> build \<Rightarrow> nat \<Rightarrow> build" where
  "pushDiagonal n st i =
     (let step' = (if i = n then - 1 else step st);
          diagonalLength' = diagonalLength st + step';
          diagonal = map (\<lambda>k. counter st + 1 + int k) [0..<nat diagonalLength']
      in \<lparr>step = step', diagonalLength = diagonalLength',
          counter = counter st + int (length diagonal),
          diagonals = diagonals st @ [diagonal]\<rparr>)"

definition buildDiagonals :: "nat \<Rightarrow> build" where
  "buildDiagonals n =
     foldl (pushDiagonal n) \<lparr>step = 1, diagonalLength = 0, counter = - 1, diagonals = []\<rparr>
       [0..<n + n - 1]"

text \<open>The state of the first loop after its first \<open>m\<close> rounds.\<close>

definition buildAfter :: "nat \<Rightarrow> nat \<Rightarrow> build" where
  "buildAfter n m =
     foldl (pushDiagonal n) \<lparr>step = 1, diagonalLength = 0, counter = - 1, diagonals = []\<rparr> [0..<m]"

text \<open>
  A cell holds a number or \<open>undefined\<close> (\<open>None\<close>), which \<open>shift\<close> and \<open>pop\<close> return on an
  empty array. Reading a diagonal that does not exist would raise a TypeError: the result
  \<open>None\<close> of \<open>fillCell\<close>.
\<close>

type_synonym cell = "int option"

definition takeFrom :: "int list \<Rightarrow> nat \<Rightarrow> cell \<times> int list" where
  "takeFrom diagonal d =
     (if d mod 2 \<noteq> 0
      then (case diagonal of [] \<Rightarrow> (None, []) | x # rest \<Rightarrow> (Some x, rest))
      else (if diagonal = [] then (None, []) else (Some (last diagonal), butlast diagonal)))"

definition fillCell :: "int list list \<times> cell list list \<Rightarrow> nat \<times> nat
                         \<Rightarrow> (int list list \<times> cell list list) option" where
  "fillCell st ij =
     (let ds = fst st; zigZagMatrix = snd st; i = fst ij; j = snd ij
      in if i + j < length ds
         then (let (v, diagonal') = takeFrom (ds ! (i + j)) (i + j)
               in Some (ds[i + j := diagonal'],
                        zigZagMatrix[i := (zigZagMatrix ! i)[j := v]]))
         else None)"

fun foldOpt :: "('s \<Rightarrow> 'a \<Rightarrow> 's option) \<Rightarrow> 's \<Rightarrow> 'a list \<Rightarrow> 's option" where
  "foldOpt f s [] = Some s"
| "foldOpt f s (x # xs) = (case f s x of None \<Rightarrow> None | Some s' \<Rightarrow> foldOpt f s' xs)"

text \<open>The cells in the order of the two nested loops.\<close>

definition cellsOf :: "nat \<Rightarrow> (nat \<times> nat) list" where
  "cellsOf n = concat (map (\<lambda>i. map (\<lambda>j. (i, j)) [0..<n]) [0..<n])"

definition getZigZagMatrix :: "nat \<Rightarrow> cell list list option" where
  "getZigZagMatrix n =
     (let zigZagMatrix = replicate n (replicate n (Some 0))
      in map_option snd
           (foldOpt fillCell (diagonals (buildDiagonals n), zigZagMatrix) (cellsOf n)))"

text \<open>The length of anti-diagonal \<open>d\<close> of an \<open>n\<close> by \<open>n\<close> grid.\<close>

definition diagLen :: "nat \<Rightarrow> nat \<Rightarrow> nat" where
  "diagLen n d = (if d < n then d + 1 else 2 * n - 1 - d)"

definition onDiag :: "nat \<Rightarrow> nat \<times> nat \<Rightarrow> bool" where
  "onDiag d c \<longleftrightarrow> fst c + snd c = d"

section \<open>Range compression (10-katas-1-tasks.js, extractRanges)\<close>

text \<open>
  The elements of the array are numbers; the function itself pushes \<open>Infinity\<close>. The
  numbers of the source are double precision floating point numbers. \<open>Num i\<close> stands for
  the integer \<open>i\<close>, and the definitions below compute with it as the source does exactly
  when \<open>i\<close> is a safe integer (\<open>Number.isSafeInteger\<close>, absolute value below 2^53):
  there \<open>acc + 1\<close> is not rounded and the number is printed with all its decimal digits.
  Beyond that range the source rounds the sum and prints shortest or exponent forms,
  which the definitions do not follow; every statement made about the text that the
  source returns is therefore restricted to safe integers.
\<close>

datatype jsnum = Num int | Infinity

definition isSafeInteger :: "int \<Rightarrow> bool" where
  "isSafeInteger i \<longleftrightarrow> \<bar>i\<bar> < 2 ^ 53"

text \<open>
  \<open>acc + 1 < value\<close>, exact for a safe integer \<open>acc\<close>; \<open>Infinity + 1\<close> is \<open>Infinity\<close>,
  below no value.
\<close>

fun beyondNext :: "jsnum \<Rightarrow> jsnum \<Rightarrow> bool" where
  "beyondNext (Num a) (Num b) = (a + 1 < b)"
| "beyondNext (Num a) Infinity = True"
| "beyondNext Infinity value = False"

function showNat :: "nat \<Rightarrow> string" where
  "showNat n = (if n < 10 then [char_of (48 + n)] else showNat (n div 10) @ [char_of (48 + n mod 10)])"
  by pat_completeness auto
termination
  by (relation "measure id") auto

declare showNat.simps [simp del]

text \<open>
  The text of a number in a template literal: for a safe integer its decimal digits,
  after a minus sign when it is negative.
\<close>

definition showInt :: "int \<Rightarrow> string" where
  "showInt i = (if i < 0 then CHR ''-'' # showNat (nat (- i)) else showNat (nat i))"

fun showNum :: "jsnum \<Rightarrow> string" where
  "showNum (Num i) = showInt i"
| "showNum Infinity = ''Infinity''"

text \<open>\<open>Array.prototype.join()\<close>: the elements separated by commas.\<close>

fun join :: "string list \<Rightarrow> string" where
  "join [] = []"
| "join [x] = x"
| "join (x # y # rest) = x @ CHR '','' # join (y # rest)"

definition slice :: "'a list \<Rightarrow> nat \<Rightarrow> nat \<Rightarrow> 'a list" where
  "slice xs startIndex endIndex = take (endIndex - startIndex) (drop startIndex xs)"

text \<open>
  \<open>toString\<close>: a group of more than two elements loses its first element to \<open>shift\<close>,
  then the last of the remaining ones to \<open>pop\<close>.
\<close>

definition toString :: "jsnum list \<Rightarrow> string" where
  "toString arr =
     (if length arr > 2 then showNum (hd arr) @ ''-'' @ showNum (last (tl arr))
      else join (map showNum arr))"

text \<open>
  The callback of \<open>nums.reduce\<close>, run from index 1 with the first element as the first
  \<open>acc\<close>; \<open>startIndex\<close> and \<open>ranges\<close> are the variables it closes over.
\<close>

fun reduceRanges :: "jsnum list \<Rightarrow> jsnum \<Rightarrow> nat \<Rightarrow> jsnum list \<Rightarrow> nat \<Rightarrow> jsnum list list
                     \<Rightarrow> jsnum list list" where
  "reduceRanges ns acc endIndex [] startIndex ranges = ranges"
| "reduceRanges ns acc endIndex (value # rest) startIndex ranges =
     (if beyondNext acc value
      then reduceRanges ns value (endIndex + 1) rest endIndex
             (ranges @ [slice ns startIndex endIndex])
      else reduceRanges ns value (endIndex + 1) rest startIndex ranges)"

text \<open>
  The result is the returned text together with the caller's array as the call leaves it.
\<close>

definition extractRanges :: "jsnum list \<Rightarrow> string \<times> jsnum list" where
  "extractRanges nums0 =
     (let ns = nums0 @ [Infinity];
          ranges = reduceRanges ns (hd ns) 1 (tl ns) 0 []
      in (join (map toString ranges), ns))"

text \<open>
  The reading of the text described by the specification: the text is cut at the commas;
  a piece \<open>start-end\<close> stands for all integers from \<open>start\<close> to \<open>end\<close>, any other piece
  for the number it writes. A number is an optional minus sign and decimal digits.
\<close>

definition isDigit :: "char \<Rightarrow> bool" where
  "isDigit c \<longleftrightarrow> 48 \<le> (of_char c :: nat) \<and> (of_char c :: nat) \<le> 57"

definition digitsValue :: "string \<Rightarrow> nat" where
  "digitsValue ds = foldl (\<lambda>acc c. acc * 10 + (of_char c - 48)) 0 ds"

definition readNat :: "string \<Rightarrow> (nat \<times> string) option" where
  "readNat s =
     (let ds = takeWhile isDigit s
      in if ds = [] then None else Some (digitsValue ds, dropWhile isDigit s))"

definition readInt :: "string \<Rightarrow> (int \<times> string) option" where
  "readInt s =
     (case s of
        c # t \<Rightarrow>
          if c = CHR ''-'' then map_option (\<lambda>(n, r). (- int n, r)) (readNat t)
          else map_option (\<lambda>(n, r). (int n, r)) (readNat s)
      | [] \<Rightarrow> None)"

definition parsePiece :: "string \<Rightarrow> int list option" where
  "parsePiece piece =
     (case readInt piece of
        None \<Rightarrow> None
      | Some (a, []) \<Rightarrow> Some [a]
      | Some (a, c # r) \<Rightarrow>
          if c = CHR ''-''
          then (case readInt r of Some (b, []) \<Rightarrow> Some [a..b] | _ \<Rightarrow> None)
          else None)"

fun collect :: "'a list option list \<Rightarrow> 'a list option" where
  "collect [] = Some []"
| "collect (None # rest) = None"
| "collect (Some xs # rest) = map_option (\<lambda>ys. xs @ ys) (collect rest)"

definition parseRanges :: "string \<Rightarrow> int list option" where
  "parseRanges s = (if s = [] then Some [] else collect (map parsePiece (splitOn CHR '','' [] s)))"

text \<open>
  Two descriptions used to reason about \<open>reduceRanges\<close>: the groups it cuts, as a
  recursion on the elements still to be read with the group read so far (\<open>cur\<close>), and the
  comma-free pieces that the text of one group consists of.
\<close>

fun groupsFrom :: "jsnum list \<Rightarrow> jsnum list \<Rightarrow> jsnum list list" where
  "groupsFrom cur [] = []"
| "groupsFrom cur (value # rest) =
     (if beyondNext (last cur) value then cur # groupsFrom [value] rest
      else groupsFrom (cur @ [value]) rest)"

fun runs :: "int list \<Rightarrow> int list \<Rightarrow> int list list" where
  "runs cur [] = [cur]"
| "runs cur (y # ys) = (if last cur + 1 < y then cur # runs [y] ys else runs (cur @ [y]) ys)"

definition pieces :: "jsnum list \<Rightarrow> string list" where
  "pieces g = (if length g > 2 then [toString g] else map showNum g)"

section \<open>Domino rows (10-katas-1-tasks.js, canDominoesMakeRow)\<close>

text \<open>
  \<open>gameRow\<close> is a sparse array indexed by the face values; \<open>None\<close> is a hole, which
  \<open>reduce\<close> skips. A write at a negative index creates a property that is no array
  element. \<open>addMove\<close> adds \<open>count\<close> to the entry, or stores \<open>count\<close> when the entry is a
  hole or zero.
\<close>

definition addMove :: "int option list \<Rightarrow> int \<Rightarrow> int \<Rightarrow> int option list" where
  "addMove row domino cnt =
     (if domino < 0 then row
      else let i = nat domino;
               row' = (if i < length row then row else row @ replicate (i + 1 - length row) None)
           in row'[i := (case row' ! i of
                           None \<Rightarrow> Some cnt
                         | Some v \<Rightarrow> if v \<noteq> 0 then Some (v + cnt) else Some cnt)])"

definition placeDomino :: "int option list \<Rightarrow> int \<times> int \<Rightarrow> int option list" where
  "placeDomino gameRow domino =
     (let leftSide = fst domino;
          rightSide = snd domino;
          shift = (if leftSide = rightSide then - 1 else 1)
      in addMove (addMove gameRow leftSide shift) rightSide shift)"

definition canDominoesMakeRow :: "(int \<times> int) list \<Rightarrow> bool" where
  "canDominoesMakeRow dominoes =
     (let gameRow = foldl placeDomino [] dominoes;
          nonPairSide = foldl (\<lambda>acc val. case val of
                                  None \<Rightarrow> acc
                                | Some v \<Rightarrow> if v < 0 \<or> v mod 2 \<noteq> 0 then acc + 1 else acc)
                          (0::nat) gameRow
      in nonPairSide < 3)"

text \<open>
  What the documentation of the function asks for: the tiles, each used once and turned
  either way, laid so that touching faces are equal.
\<close>

fun isChain :: "(int \<times> int) list \<Rightarrow> bool" where
  "isChain [] = True"
| "isChain [t] = True"
| "isChain (s # t # rest) = (snd s = fst t \<and> isChain (t # rest))"

definition unordered :: "int \<times> int \<Rightarrow> int \<times> int" where
  "unordered t = (min (fst t) (snd t), max (fst t) (snd t))"

definition makesRow :: "(int \<times> int) list \<Rightarrow> (int \<times> int) list \<Rightarrow> bool" where
  "makesRow dominoes row \<longleftrightarrow>
     isChain row \<and> mset (map unordered row) = mset (map unordered dominoes)"

section \<open>Brace expansion (10-katas-1-tasks.js, expandBraces)\<close>

text \<open>
  \<open>PATTERN.exec(line)\<close> for the pattern \<open>({[^{}]*})\<close>: the leftmost place where an opening
  brace is followed by characters other than braces and then by a closing brace. After the
  opening brace the pattern can only take the whole run of characters other than braces,
  since none of them is a closing brace; \<open>matchHere\<close> is the attempt at one place.
\<close>

definition notBrace :: "char \<Rightarrow> bool" where
  "notBrace c \<longleftrightarrow> c \<noteq> CHR ''{'' \<and> c \<noteq> CHR ''}''"

definition matchHere :: "string \<Rightarrow> string option" where
  "matchHere s =
     (case s of
        [] \<Rightarrow> None
      | c # r \<Rightarrow>
          if c = CHR ''{''
          then (case dropWhile notBrace r of
                  [] \<Rightarrow> None
                | e # _ \<Rightarrow> if e = CHR ''}'' then Some (c # takeWhile notBrace r @ [e]) else None)
          else None)"

fun getMatch :: "string \<Rightarrow> string option" where
  "getMatch [] = None"
| "getMatch (c # r) = (case matchHere (c # r) of Some m \<Rightarrow> Some m | None \<Rightarrow> getMatch r)"

text \<open>
  \<open>openBracket\<close>: the text between the braces, cut at the commas. The table \<open>CASH\<close> only
  remembers results of this computation and is left out.
\<close>

definition openBracket :: "string \<Rightarrow> string list" where
  "openBracket bracket = splitOn CHR '','' [] (butlast (tl bracket))"

text \<open>
  \<open>line.replace(template, arg)\<close> with two strings replaces the first occurrence of
  \<open>template\<close>. The replacement is not \<open>arg\<close> as it stands: in it \<open>$$\<close> stands for a dollar
  sign, \<open>$&\<close> for the matched text, \<open>$`\<close> for the text before the match and \<open>$'\<close> for the
  text after it; every other character, a dollar sign included, stands for itself.
\<close>

fun getSubstitution :: "string \<Rightarrow> string \<Rightarrow> string \<Rightarrow> string \<Rightarrow> string" where
  "getSubstitution matched preceding following [] = []"
| "getSubstitution matched preceding following [c] = [c]"
| "getSubstitution matched preceding following (c # d # r) =
     (if c = CHR ''$'' \<and> d = CHR ''$'' then c # getSubstitution matched preceding following r
      else if c = CHR ''$'' \<and> d = CHR ''&'' then matched @ getSubstitution matched preceding following r
      else if c = CHR ''$'' \<and> d = CHR 0x60 then preceding @ getSubstitution matched preceding following r
      else if c = CHR ''$'' \<and> d = CHR 0x27 then following @ getSubstitution matched preceding following r
      else c # getSubstitution matched preceding following (d # r))"

fun findFirst :: "string \<Rightarrow> string \<Rightarrow> string \<Rightarrow> (string \<times> string) option" where
  "findFirst template passed [] = (if template = [] then Some (rev passed, []) else None)"
| "findFirst template passed (c # r) =
     (if take (length template) (c # r) = template
      then Some (rev passed, drop (length template) (c # r))
      else findFirst template (c # passed) r)"

definition replace :: "string \<Rightarrow> string \<Rightarrow> string \<Rightarrow> string" where
  "replace line template arg =
     (case findFirst template [] line of
        None \<Rightarrow> line
      | Some (preceding, following) \<Rightarrow> preceding @ getSubstitution template preceding following arg @ following)"

definition combine :: "string \<Rightarrow> string \<Rightarrow> string list \<Rightarrow> string list" where
  "combine line template args = map (\<lambda>arg. replace line template arg) args"

definition replaceBracket :: "string \<Rightarrow> string list" where
  "replaceBracket line =
     (case getMatch line of
        None \<Rightarrow> [line]
      | Some bracket \<Rightarrow> combine line bracket (openBracket bracket))"

text \<open>
  The loop of \<open>findBracets\<close>. It may run forever, so its result is an option: \<open>None\<close>
  says that the loop does not end.
\<close>

partial_function (option) whileFlag :: "string list \<Rightarrow> string list option" where
  "whileFlag combinations =
     (if list_all (\<lambda>comb. length comb \<noteq> 1) (map replaceBracket combinations)
      then whileFlag (concat (map replaceBracket combinations))
      else Some (concat (map replaceBracket combinations)))"

declare whileFlag.simps [code]

definition findBracets :: "string \<Rightarrow> string list option" where
  "findBracets str = whileFlag [str]"

text \<open>\<open>new Set(...)\<close> keeps the first of equal strings, in the order of arrival.\<close>

fun uniq :: "string list \<Rightarrow> string list \<Rightarrow> string list" where
  "uniq seen [] = []"
| "uniq seen (x # xs) = (if x \<in> set seen then uniq seen xs else x # uniq (x # seen) xs)"

definition expandBraces :: "string \<Rightarrow> string list option" where
  "expandBraces str = map_option (uniq []) (findBracets str)"

text \<open>
  Strings whose groups are not nested, given by their parts: each group with the text
  before it and its alternatives, and the text after the last group. \<open>choices\<close> lists
  the strings obtained by choosing one alternative for each group.
\<close>

fun render :: "(string \<times> string list) list \<Rightarrow> string \<Rightarrow> string" where
  "render [] rest = rest"
| "render (g # gs) rest = fst g @ CHR ''{'' # join (snd g) @ CHR ''}'' # render gs rest"

fun choices :: "(string \<times> string list) list \<Rightarrow> string \<Rightarrow> string list" where
  "choices [] rest = [rest]"
| "choices (g # gs) rest =
     concat (map (\<lambda>a. map (\<lambda>r. fst g @ a @ r) (choices gs rest)) (snd g))"

definition plainText :: "string \<Rightarrow> bool" where
  "plainText s = list_all notBrace s"

definition plainAlt :: "string \<Rightarrow> bool" where
  "plainAlt a = list_all (\<lambda>c. notBrace c \<and> c \<noteq> CHR '','' \<and> c \<noteq> CHR ''$'') a"

definition plainGroup :: "string \<times> string list \<Rightarrow> bool" where
  "plainGroup g \<longleftrightarrow> plainText (fst g) \<and> 2 \<le> length (snd g) \<and> list_all plainAlt (snd g)"

definition nonNested :: "(string \<times> string list) list \<Rightarrow> string \<Rightarrow> bool" where
  "nonNested gs rest \<longleftrightarrow> list_all plainGroup gs \<and> plainText rest"

definition alternativeCounts :: "(string \<times> string list) list \<Rightarrow> nat" where
  "alternativeCounts gs = prod_list (map (\<lambda>g. length (snd g)) gs)"

section \<open>Text wrapping (11-katas-2-tasks.js, wrapText)\<close>

text \<open>
  The pattern is \<open>(?!\s).{1,columns}(?=(\s|$))\<close> with the flag \<open>g\<close>. \<open>isSpace\<close> is the class
  \<open>\s\<close> on the characters below 256; \<open>isDot\<close> above is the dot.
\<close>

definition isSpace :: "char \<Rightarrow> bool" where
  "isSpace c \<longleftrightarrow>
     c \<in> set [CHR 0x09, CHR 0x0A, CHR 0x0B, CHR 0x0C, CHR 0x0D, CHR 0x20, CHR 0xA0]"

text \<open>\<open>(?=(\s|$))\<close> after \<open>k\<close> characters: the text ends there or goes on with white space.\<close>

definition lookEnd :: "string \<Rightarrow> nat \<Rightarrow> bool" where
  "lookEnd s k = (case drop k s of [] \<Rightarrow> True | c # _ \<Rightarrow> isSpace c)"

text \<open>
  The greedy \<open>.{1,columns}\<close> first takes as many dot characters as it can, at most
  \<open>columns\<close>, and gives them back one by one until the lookahead holds; with no character
  left it fails.
\<close>

fun longest :: "string \<Rightarrow> nat \<Rightarrow> nat option" where
  "longest s 0 = None"
| "longest s (Suc k) = (if lookEnd s (Suc k) then Some (Suc k) else longest s k)"

text \<open>The attempt at the start of \<open>s\<close>: the length of the match, if there is one.\<close>

definition matchAt :: "string \<Rightarrow> nat \<Rightarrow> nat option" where
  "matchAt s columns =
     (case s of
        [] \<Rightarrow> None
      | c # _ \<Rightarrow>
          if isSpace c then None
          else longest s (min columns (length (takeWhile isDot s))))"

text \<open>
  \<open>text.match\<close> with the flag \<open>g\<close>: the matches from left to right, each search starting
  where the last match ended, and one character further after a failed attempt.
\<close>

function scanLines :: "nat \<Rightarrow> string \<Rightarrow> string list" where
  "scanLines columns [] = []"
| "scanLines columns (c # r) =
     (case matchAt (c # r) columns of
        None \<Rightarrow> scanLines columns r
      | Some k \<Rightarrow> take k (c # r) # scanLines columns (drop k (c # r)))"
  by pat_completeness auto
termination
proof (relation "measure (\<lambda>(columns, s). length s)")
  show "wf (measure (\<lambda>(columns, s). length s))" by simp
next
  fix columns :: nat and c :: char and r :: string
  show "((columns, r), (columns, c # r)) \<in> measure (\<lambda>(columns, s). length s)" by simp
next
  fix columns :: nat and c :: char and r :: string and k :: nat
  assume m: "matchAt (c # r) columns = Some k"
  have "longest (c # r) n = Some k \<Longrightarrow> 0 < k" for n
    by (induction n) (auto split: if_splits)
  with m have "0 < k" by (auto simp: matchAt_def split: if_splits)
  then show "((columns, drop k (c # r)), (columns, c # r)) \<in> measure (\<lambda>(columns, s). length s)"
    by simp
qed

text \<open>
  With \<open>columns\<close> zero the pattern \<open>.{1,0}\<close> is refused when it is built (SyntaxError); with
  no match at all \<open>match\<close> returns \<open>null\<close>, and the loop over it raises a TypeError.
\<close>

datatype jserror = SyntaxError | TypeError

definition wrapText :: "string \<Rightarrow> nat \<Rightarrow> jserror + string list" where
  "wrapText text columns =
     (if columns = 0 then Inl SyntaxError
      else (case scanLines columns text of
              [] \<Rightarrow> Inl TypeError
            | line # lines \<Rightarrow> Inr (line # lines)))"

text \<open>
  The words of a text are its maximal runs of characters other than white space; the
  normal form of a text is its words with single spaces between them. \<open>cur\<close> holds,
  reversed, the word being read.
\<close>

fun wordsFrom :: "string \<Rightarrow> string \<Rightarrow> string list" where
  "wordsFrom cur [] = (if cur = [] then [] else [rev cur])"
| "wordsFrom cur (c # r) =
     (if isSpace c then (if cur = [] then wordsFrom [] r else rev cur # wordsFrom [] r)
      else wordsFrom (c # cur) r)"

definition wordsOf :: "string \<Rightarrow> string list" where
  "wordsOf s = wordsFrom [] s"

fun joinSpaces :: "string list \<Rightarrow> string" where
  "joinSpaces [] = []"
| "joinSpaces [x] = x"
| "joinSpaces (x # y # rest) = x @ CHR '' '' # joinSpaces (y # rest)"

definition normalize :: "string \<Rightarrow> string" where
  "normalize s = joinSpaces (wordsOf s)"

definition documentedText :: string where
  "documentedText =
     ''The String global object is a constructor for strings, or a sequence of characters.''"

section \<open>Range compression: reading back what was written\<close>

lemma digitsValue_snoc: "digitsValue (ds @ [c]) = digitsValue ds * 10 + (of_char c - 48)"
  by (simp add: digitsValue_def)

lemma showNat_isDigit: "\<forall>c\<in>set (showNat n). isDigit c"
proof (induction n rule: showNat.induct)
  case (1 n)
  show ?case
  proof (cases "n < 10")
    case True
    then show ?thesis by (subst showNat.simps) (simp add: isDigit_def)
  next
    case False
    have "n mod 10 < 10" by simp
    then have "isDigit (char_of (48 + n mod 10))"
      by (simp add: isDigit_def)
    with 1 False show ?thesis by (subst showNat.simps) simp
  qed
qed

lemma showNat_nonempty: "showNat n \<noteq> []"
  by (subst showNat.simps) simp

lemma digitsValue_showNat: "digitsValue (showNat n) = n"
proof (induction n rule: showNat.induct)
  case (1 n)
  show ?case
  proof (cases "n < 10")
    case True
    then show ?thesis by (subst showNat.simps) (simp add: digitsValue_def)
  next
    case False
    have "n mod 10 < 10" by simp
    then have "(of_char (char_of (48 + n mod 10)) :: nat) = 48 + n mod 10"
      by simp
    with 1 False show ?thesis
      by (subst showNat.simps) (simp add: digitsValue_snoc)
  qed
qed

lemma takeWhile_prefix:
  "\<forall>c\<in>set xs. P c \<Longrightarrow> rest = [] \<or> \<not> P (hd rest) \<Longrightarrow> takeWhile P (xs @ rest) = xs"
  by (induction xs) (auto simp: takeWhile_eq_Nil_iff neq_Nil_conv)

lemma dropWhile_prefix:
  "\<forall>c\<in>set xs. P c \<Longrightarrow> rest = [] \<or> \<not> P (hd rest) \<Longrightarrow> dropWhile P (xs @ rest) = rest"
  by (induction xs) (auto simp: dropWhile_eq_self_iff neq_Nil_conv)

lemma readNat_showNat:
  "rest = [] \<or> \<not> isDigit (hd rest) \<Longrightarrow> readNat (showNat n @ rest) = Some (n, rest)"
proof -
  assume r: "rest = [] \<or> \<not> isDigit (hd rest)"
  have d: "\<forall>c\<in>set (showNat n). isDigit c" by (rule showNat_isDigit)
  have t: "takeWhile isDigit (showNat n @ rest) = showNat n"
    using d r by (rule takeWhile_prefix)
  have dr: "dropWhile isDigit (showNat n @ rest) = rest"
    using d r by (rule dropWhile_prefix)
  show ?thesis
    unfolding readNat_def Let_def t dr by (simp add: showNat_nonempty digitsValue_showNat)
qed

lemma showNat_no_minus: "CHR ''-'' \<notin> set (showNat n)"
  using showNat_isDigit [of n] by (auto simp: isDigit_def)

lemma showNat_no_comma: "CHR '','' \<notin> set (showNat n)"
  using showNat_isDigit [of n] by (auto simp: isDigit_def)

lemma readInt_showInt:
  assumes "rest = [] \<or> \<not> isDigit (hd rest)"
  shows "readInt (showInt i @ rest) = Some (i, rest)"
proof (cases "i < 0")
  case True
  then show ?thesis
    using readNat_showNat [OF assms, of "nat (- i)"] by (simp add: readInt_def showInt_def)
next
  case False
  obtain c t where ct: "showNat (nat i) = c # t"
    using showNat_nonempty [of "nat i"] by (cases "showNat (nat i)") auto
  have "c \<noteq> CHR ''-''"
    using showNat_no_minus [of "nat i"] ct by auto
  with False ct show ?thesis
    using readNat_showNat [OF assms, of "nat i"] by (simp add: readInt_def showInt_def)
qed

lemma parsePiece_single: "parsePiece (showInt a) = Some [a]"
  using readInt_showInt [of "[]" a] by (simp add: parsePiece_def)

lemma parsePiece_range: "parsePiece (showInt a @ ''-'' @ showInt b) = Some [a..b]"
proof -
  have "\<not> isDigit CHR ''-''" by (simp add: isDigit_def)
  then have "readInt (showInt a @ CHR ''-'' # showInt b) = Some (a, CHR ''-'' # showInt b)"
    by (intro readInt_showInt) simp
  moreover have "readInt (showInt b) = Some (b, [])"
    using readInt_showInt [of "[]" b] by simp
  ultimately show ?thesis by (simp add: parsePiece_def)
qed

lemma showInt_no_comma: "CHR '','' \<notin> set (showInt i)"
  using showNat_no_comma by (simp add: showInt_def)

lemma slice_middle: "slice (pre @ cur @ rest) (length pre) (length pre + length cur) = cur"
  by (simp add: slice_def)

lemma reduceRanges_groupsFrom:
  "cur \<noteq> [] \<Longrightarrow>
   reduceRanges (pre @ cur @ rest) (last cur) (length pre + length cur) rest (length pre) ranges
   = ranges @ groupsFrom cur rest"
proof (induction rest arbitrary: pre cur ranges)
  case Nil
  then show ?case by simp
next
  case (Cons v rest)
  show ?case
  proof (cases "beyondNext (last cur) v")
    case True
    have "reduceRanges ((pre @ cur) @ [v] @ rest) (last [v]) (length (pre @ cur) + length [v]) rest
            (length (pre @ cur)) (ranges @ [cur])
          = (ranges @ [cur]) @ groupsFrom [v] rest"
      by (rule Cons.IH) simp
    with True show ?thesis
      using slice_middle [of pre cur "v # rest"] by simp
  next
    case False
    have "reduceRanges (pre @ (cur @ [v]) @ rest) (last (cur @ [v]))
            (length pre + length (cur @ [v])) rest (length pre) ranges
          = ranges @ groupsFrom (cur @ [v]) rest"
      by (rule Cons.IH) simp
    with False show ?thesis by simp
  qed
qed

lemma extractRanges_groups:
  "fst (extractRanges (x # xs)) = join (map toString (groupsFrom [x] (xs @ [Infinity])))"
  using reduceRanges_groupsFrom [of "[x]" "[]" "xs @ [Infinity]" "[]"]
  by (simp add: extractRanges_def)

lemma groupsFrom_runs:
  "cur \<noteq> [] \<Longrightarrow>
   groupsFrom (map Num cur) (map Num ys @ [Infinity]) = map (map Num) (runs cur ys)"
proof (induction ys arbitrary: cur)
  case Nil
  then show ?case by (simp add: last_map)
next
  case (Cons y ys)
  have "groupsFrom (map Num [y]) (map Num ys @ [Infinity]) = map (map Num) (runs [y] ys)"
    by (rule Cons.IH) simp
  moreover
  have "groupsFrom (map Num (cur @ [y])) (map Num ys @ [Infinity])
        = map (map Num) (runs (cur @ [y]) ys)"
    by (rule Cons.IH) simp
  ultimately show ?case using Cons.prems by (simp add: last_map)
qed

lemma runs_nonempty: "cur \<noteq> [] \<Longrightarrow> \<forall>g\<in>set (runs cur ys). g \<noteq> []"
proof (induction ys arbitrary: cur)
  case Nil
  then show ?case by simp
next
  case (Cons y ys)
  have "\<forall>g\<in>set (runs [y] ys). g \<noteq> []" by (rule Cons.IH) simp
  moreover have "\<forall>g\<in>set (runs (cur @ [y]) ys). g \<noteq> []" by (rule Cons.IH) simp
  ultimately show ?case using Cons.prems by simp
qed

lemma runs_not_Nil: "runs cur ys \<noteq> []"
  by (induction ys arbitrary: cur) simp_all

lemma join_append:
  "xs \<noteq> [] \<Longrightarrow> ys \<noteq> [] \<Longrightarrow> join (xs @ ys) = join xs @ CHR '','' # join ys"
  by (induction xs rule: join.induct) (auto simp: neq_Nil_conv)

lemma join_concat:
  "\<forall>xs\<in>set xss. xs \<noteq> [] \<Longrightarrow> join (map join xss) = join (concat xss)"
proof (induction xss)
  case Nil
  then show ?case by simp
next
  case (Cons xs xss)
  show ?case
  proof (cases xss)
    case Nil
    then show ?thesis by simp
  next
    case (Cons ys yss)
    then have "concat xss \<noteq> []" using Cons.prems by auto
    moreover have "xs \<noteq> []" using Cons.prems by simp
    moreover have "join (map join xss) = join (concat xss)"
      using Cons.IH Cons.prems by simp
    ultimately show ?thesis using Cons by (simp add: join_append)
  qed
qed

lemma toString_pieces: "toString g = join (pieces g)"
  by (simp add: pieces_def toString_def)

lemma splitOn_no_sep:
  "sep \<notin> set t \<Longrightarrow> splitOn sep pending (t @ rest) = splitOn sep (rev t @ pending) rest"
  by (induction t arbitrary: pending) auto

lemma splitOn_join:
  "toks \<noteq> [] \<Longrightarrow> \<forall>t\<in>set toks. CHR '','' \<notin> set t \<Longrightarrow>
   splitOn CHR '','' [] (join toks) = toks"
proof (induction toks rule: join.induct)
  case 1
  then show ?case by simp
next
  case (2 x)
  then show ?case using splitOn_no_sep [of "CHR '',''" x "[]" "[]"] by simp
next
  case (3 x y rest)
  then show ?case
    using splitOn_no_sep [of "CHR '',''" x "[]" "CHR '','' # join (y # rest)"] by simp
qed

lemma collect_append:
  "collect (xs @ ys) =
     (case (collect xs, collect ys) of (Some a, Some b) \<Rightarrow> Some (a @ b) | _ \<Rightarrow> None)"
  by (induction xs rule: collect.induct) (auto split: option.splits)

lemma collect_singles: "collect (map parsePiece (map showNum (map Num xs))) = Some xs"
  by (induction xs) (simp_all add: parsePiece_single)

lemma pieces_parse:
  assumes "a \<le> b"
  shows "collect (map parsePiece (pieces (map Num [a..b]))) = Some [a..b]"
proof (cases "length [a..b] > 2")
  case True
  have h: "hd (map Num [a..b]) = Num a"
    using assms by (simp add: upto_rec1 [of a b])
  have "tl [a..b] \<noteq> []" using True by (cases "[a..b]") auto
  then have "last (tl (map Num [a..b])) = Num (last [a..b])"
    by (simp add: last_tl last_map map_tl [symmetric] del: length_upto)
  moreover have "last [a..b] = b" using assms by (simp add: upto_rec2 [of a b])
  ultimately have "toString (map Num [a..b]) = showInt a @ CHR ''-'' # showInt b"
    using True h by (simp add: toString_def del: length_upto)
  then show ?thesis
    using True parsePiece_range [of a b] by (simp add: pieces_def del: length_upto)
next
  case False
  then have "pieces (map Num [a..b]) = map showNum (map Num [a..b])"
    by (simp add: pieces_def del: length_upto)
  then show ?thesis by (simp only: collect_singles)
qed

lemma runs_roundtrip:
  "a \<le> b \<Longrightarrow> sorted_wrt (<) (b # ys) \<Longrightarrow>
   collect (map parsePiece (concat (map (\<lambda>g. pieces (map Num g)) (runs [a..b] ys))))
   = Some ([a..b] @ ys)"
proof (induction ys arbitrary: a b)
  case Nil
  then show ?case by (simp add: pieces_parse)
next
  case (Cons y ys)
  have lb: "last [a..b] = b" using Cons.prems(1) by (simp add: upto_rec2 [of a b])
  have b_y: "b < y" using Cons.prems(2) by simp
  have sy: "sorted_wrt (<) (y # ys)" using Cons.prems(2) by simp
  show ?case
  proof (cases "b + 1 < y")
    case True
    have "collect (map parsePiece (concat (map (\<lambda>g. pieces (map Num g)) (runs [y..y] ys))))
          = Some ([y..y] @ ys)"
      using sy by (intro Cons.IH) simp_all
    then show ?thesis
      using True lb Cons.prems(1) by (simp add: collect_append pieces_parse)
  next
    case False
    then have y: "y = b + 1" using b_y by simp
    have "collect (map parsePiece (concat (map (\<lambda>g. pieces (map Num g)) (runs [a..b + 1] ys))))
          = Some ([a..b + 1] @ ys)"
      using sy y Cons.prems(1) by (intro Cons.IH) simp_all
    moreover have "[a..b + 1] = [a..b] @ [b + 1]"
      using Cons.prems(1) by (simp add: upto_rec2 [of a "b + 1"])
    ultimately show ?thesis using False lb y by simp
  qed
qed

lemma showInt_nonempty: "showInt i \<noteq> []"
  by (simp add: showInt_def showNat_nonempty)

lemma pieces_no_comma: "\<forall>t\<in>set (pieces (map Num g)). CHR '','' \<notin> set t"
proof (cases "length g > 2")
  case True
  then have "g \<noteq> []" "tl g \<noteq> []" by (cases g; auto)+
  then have "hd (map Num g) = Num (hd g)" "last (tl (map Num g)) = Num (last g)"
    by (simp_all add: hd_map last_tl last_map map_tl [symmetric])
  then show ?thesis using True by (simp add: pieces_def toString_def showInt_no_comma)
next
  case False
  then show ?thesis by (auto simp: pieces_def showInt_no_comma)
qed

lemma pieces_nonempty: "g \<noteq> [] \<Longrightarrow> pieces g \<noteq> []"
  by (simp add: pieces_def)

lemma join_nonempty: "toks \<noteq> [] \<Longrightarrow> hd toks \<noteq> [] \<Longrightarrow> join toks \<noteq> []"
  by (induction toks rule: join.induct) simp_all


section \<open>Domino rows: tiles that cannot be laid\<close>

lemma unordered_double: "unordered t = (a, a) \<Longrightarrow> t = (a, a)"
  by (cases t) (auto simp: unordered_def min_def max_def split: if_splits)

lemma two_doubles_no_row: "\<not> (\<exists>row. makesRow [(1, 1), (2, 2)] row)"
proof
  assume "\<exists>row. makesRow [(1, 1), (2, 2)] row"
  then obtain row where ch: "isChain row"
    and ms: "mset (map unordered row) = {#(1, 1), (2, 2)#}"
    by (auto simp: makesRow_def unordered_def)
  from ms have "size (mset (map unordered row)) = 2" by simp
  then have "length row = 2" by simp
  then obtain s t where row: "row = [s, t]"
    by (auto simp: numeral_2_eq_2 length_Suc_conv)
  with ms have "{#unordered s, unordered t#} = {#(1, 1), (2::int, 2::int)#}" by simp
  then have "(unordered s = (1, 1) \<and> unordered t = (2, 2))
             \<or> (unordered s = (2, 2) \<and> unordered t = (1, 1))"
    by (auto simp: add_eq_conv_ex)
  then have "(s = (1, 1) \<and> t = (2, 2)) \<or> (s = (2, 2) \<and> t = (1, 1))"
    by (auto dest: unordered_double)
  with ch row show False by auto
qed

section \<open>Bank account parsing: the value of a written block\<close>

lemma digit_cases:
  "d < 10 \<Longrightarrow> d \<in> {0, 1, 2, 3, 4, 5, 6, 7, 8, 9::nat}"
  by auto

lemma glyphRow_shape:
  assumes "d < 10" "r < 3"
  shows "length (glyphRow r d) = 3 \<and> (\<forall>c\<in>set (glyphRow r d). isDot c)"
proof -
  have r: "r = 0 \<or> r = 1 \<or> r = 2" using assms(2) by auto
  have d: "d \<in> {0, 1, 2, 3, 4, 5, 6, 7, 8, 9::nat}" using assms(1) by (rule digit_cases)
  show ?thesis using r d by (auto simp: glyphRow_def nums_def isDot_def)
qed

lemma glyph_rows:
  assumes "d < 10"
  shows "glyphRow 0 d @ glyphRow 1 d @ glyphRow 2 d = nums ! d"
proof -
  have d: "d \<in> {0, 1, 2, 3, 4, 5, 6, 7, 8, 9::nat}" using assms by (rule digit_cases)
  show ?thesis using d by (auto simp: glyphRow_def nums_def)
qed

lemma indexOf_nums:
  assumes "d < 10"
  shows "indexOf nums (nums ! d) = int d"
proof -
  have d: "d \<in> {0, 1, 2, 3, 4, 5, 6, 7, 8, 9::nat}" using assms by (rule digit_cases)
  show ?thesis using d by (auto simp: indexOf_def nums_def)
qed

lemma chunks_concat:
  "\<forall>x\<in>set xs. length x = 3 \<and> (\<forall>c\<in>set x. isDot c) \<Longrightarrow> chunks (concat xs) = xs"
proof (induction xs)
  case Nil
  then show ?case by (simp add: chunks_def)
next
  case (Cons x xs)
  then obtain a b c where x: "x = [a, b, c]"
    by (auto simp: numeral_3_eq_3 length_Suc_conv)
  with Cons.prems have "isDot a" "isDot b" "isDot c" by simp_all
  moreover have "chunks (concat xs) = xs" using Cons by simp
  ultimately show ?case using x by (simp add: chunks_def)
qed

lemma chunks_renderLine:
  assumes "\<forall>d\<in>set ds. d < 10" "r < 3"
  shows "chunks (renderLine r ds) = map (glyphRow r) ds"
  unfolding renderLine_def using assms glyphRow_shape by (intro chunks_concat) auto

lemma renderLine_no_newline:
  assumes "\<forall>d\<in>set ds. d < 10" "r < 3"
  shows "CHR 0x0A \<notin> set (renderLine r ds)"
proof
  assume "CHR 0x0A \<in> set (renderLine r ds)"
  then obtain d where "d \<in> set ds" "CHR 0x0A \<in> set (glyphRow r d)"
    by (auto simp: renderLine_def)
  then show False using glyphRow_shape [of d r] assms by (auto simp: isDot_def)
qed

lemma splitOn_single: "sep \<notin> set t \<Longrightarrow> splitOn sep pending t = [rev pending @ t]"
  by (induction t arbitrary: pending) auto

lemma splitOn_line:
  "sep \<notin> set t \<Longrightarrow> splitOn sep [] (t @ sep # rest) = t # splitOn sep [] rest"
proof -
  assume "sep \<notin> set t"
  then have "splitOn sep [] (t @ sep # rest) = splitOn sep (rev t @ []) (sep # rest)"
    by (induction t arbitrary: rest rule: rev_induct) (auto simp: splitOn_no_sep)
  then show ?thesis by simp
qed


lemma splitOn_three_lines:
  assumes "CHR 0x0A \<notin> set l0" "CHR 0x0A \<notin> set l1" "CHR 0x0A \<notin> set l2"
  shows "splitOn CHR 0x0A [] (l0 @ NL @ l1 @ NL @ l2 @ NL) = [l0, l1, l2, []]"
  using assms by (simp add: NL_def splitOn_line)

lemma glyphs_of_lines:
  "foldl (\<lambda>acc line. forEachAppend acc 0 line) (replicate 9 [])
     [[a0, a1, a2, a3, a4, a5, a6, a7, a8], [b0, b1, b2, b3, b4, b5, b6, b7, b8],
      [c0, c1, c2, c3, c4, c5, c6, c7, c8], []]
   = [a0 @ b0 @ c0, a1 @ b1 @ c1, a2 @ b2 @ c2, a3 @ b3 @ c3, a4 @ b4 @ c4,
      a5 @ b5 @ c5, a6 @ b6 @ c6, a7 @ b7 @ c7, a8 @ b8 @ c8]"
  by (simp add: eval_nat_numeral)

lemma nine_elements:
  assumes "length ds = 9"
  obtains d0 d1 d2 d3 d4 d5 d6 d7 d8 where "ds = [d0, d1, d2, d3, d4, d5, d6, d7, d8]"
  using assms by (auto simp: eval_nat_numeral length_Suc_conv)

lemma parseBankAccount_render:
  assumes len: "length ds = 9" and dig: "\<forall>d\<in>set ds. d < 10"
  shows "parseBankAccount (renderAccount ds) = digitsNumber ds"
proof -
  obtain d0 d1 d2 d3 d4 d5 d6 d7 d8 where ds: "ds = [d0, d1, d2, d3, d4, d5, d6, d7, d8]"
    using len by (rule nine_elements)
  have lines: "splitOn CHR 0x0A [] (renderAccount ds)
               = [renderLine 0 ds, renderLine 1 ds, renderLine 2 ds, []]"
    unfolding renderAccount_def using dig
    by (intro splitOn_three_lines renderLine_no_newline) simp_all
  have ch: "map chunks (splitOn CHR 0x0A [] (renderAccount ds))
            = [map (glyphRow 0) ds, map (glyphRow 1) ds, map (glyphRow 2) ds, []]"
  proof -
    have c0: "chunks (renderLine 0 ds) = map (glyphRow 0) ds"
      using dig by (rule chunks_renderLine) simp
    have c1: "chunks (renderLine 1 ds) = map (glyphRow 1) ds"
      using dig by (rule chunks_renderLine) simp
    have c2: "chunks (renderLine 2 ds) = map (glyphRow 2) ds"
      using dig by (rule chunks_renderLine) simp
    have cn: "chunks [] = []" by (simp add: chunks_def)
    show ?thesis by (simp only: lines list.map c0 c1 c2 cn)
  qed
  have gl: "foldl (\<lambda>acc line. forEachAppend acc 0 line) (replicate 9 [])
              (map chunks (splitOn CHR 0x0A [] (renderAccount ds)))
            = map (\<lambda>d. nums ! d) ds"
    unfolding ch using dig unfolding ds
    by (simp only: list.map glyphs_of_lines) (simp add: glyph_rows [unfolded One_nat_def])
  have "map (\<lambda>num. indexOf nums num) (map (\<lambda>d. nums ! d) ds) = map int ds"
    using dig by (simp add: indexOf_nums)
  then show ?thesis
    unfolding parseBankAccount_def gl Let_def digitsNumber_def by (simp add: ds)
qed

lemma digitsNumber_bounds:
  assumes len: "length ds = 9" and dig: "\<forall>d\<in>set ds. d < 10"
  shows "0 \<le> digitsNumber ds" "digitsNumber ds < 10 ^ 9"
    "hd ds = 0 \<Longrightarrow> digitsNumber ds < 10 ^ 8" "hd ds \<noteq> 0 \<Longrightarrow> 10 ^ 8 \<le> digitsNumber ds"
proof -
  obtain d0 d1 d2 d3 d4 d5 d6 d7 d8 where ds: "ds = [d0, d1, d2, d3, d4, d5, d6, d7, d8]"
    using len by (rule nine_elements)
  show "0 \<le> digitsNumber ds" by (simp add: digitsNumber_def)
  show "digitsNumber ds < 10 ^ 9" using dig by (simp add: digitsNumber_def ds)
  show "hd ds = 0 \<Longrightarrow> digitsNumber ds < 10 ^ 8" using dig by (simp add: digitsNumber_def ds)
  show "hd ds \<noteq> 0 \<Longrightarrow> 10 ^ 8 \<le> digitsNumber ds" using dig by (simp add: digitsNumber_def ds)
qed

section \<open>Zig-zag matrix: every number is placed once\<close>

lemma map_counter_range:
  "map (\<lambda>k. int N - 1 + 1 + int k) [0..<L] = map int [N..<N + L]"
proof -
  have "map int [N..<N + L] = map int (map (\<lambda>k. k + N) [0..<L])"
    by (simp add: map_add_upt add.commute)
  then show ?thesis by (simp add: comp_def add.commute)
qed

lemma buildAfter_Suc: "buildAfter n (Suc m) = pushDiagonal n (buildAfter n m) m"
  by (simp add: buildAfter_def)

lemma build_invariant:
  "m \<le> n + n - 1 \<Longrightarrow>
   step (buildAfter n m) = (if m \<le> n then 1 else - 1)
   \<and> diagonalLength (buildAfter n m) = int (if m \<le> n then m else 2 * n - m)
   \<and> counter (buildAfter n m) = int (length (concat (diagonals (buildAfter n m)))) - 1
   \<and> concat (diagonals (buildAfter n m))
       = map int [0..<length (concat (diagonals (buildAfter n m)))]
   \<and> map length (diagonals (buildAfter n m)) = map (diagLen n) [0..<m]"
proof (induction m)
  case 0
  then show ?case by (simp add: buildAfter_def)
next
  case (Suc m)
  define st where "st = buildAfter n m"
  define N where "N = length (concat (diagonals st))"
  have m: "m < n + n - 1" using Suc.prems by simp
  have ih: "step st = (if m \<le> n then 1 else - 1)"
    "diagonalLength st = int (if m \<le> n then m else 2 * n - m)"
    "counter st = int N - 1"
    "concat (diagonals st) = map int [0..<N]"
    "map length (diagonals st) = map (diagLen n) [0..<m]"
    using Suc.IH m unfolding st_def N_def by simp_all
  define step' where "step' = (if m = n then - 1 else step st)"
  have s': "step' = (if Suc m \<le> n then 1 else - 1)"
    using ih(1) by (auto simp: step'_def)
  have l': "diagonalLength st + step' = int (if Suc m \<le> n then Suc m else 2 * n - Suc m)"
    using ih(2) s' m by auto
  have nl: "nat (diagonalLength st + step') = diagLen n m"
    using l' m by (auto simp: diagLen_def)
  define diagonal where "diagonal = map (\<lambda>k. counter st + 1 + int k) [0..<diagLen n m]"
  have dg: "diagonal = map int [N..<N + diagLen n m]"
    unfolding diagonal_def ih(3) by (rule map_counter_range)
  have push: "buildAfter n (Suc m)
              = \<lparr>step = step', diagonalLength = diagonalLength st + step',
                 counter = counter st + int (length diagonal),
                 diagonals = diagonals st @ [diagonal]\<rparr>"
    unfolding buildAfter_Suc pushDiagonal_def Let_def st_def [symmetric] step'_def [symmetric]
      nl diagonal_def [symmetric] by simp
  have cc: "concat (diagonals st @ [diagonal]) = map int [0..<N + diagLen n m]"
    using ih(4) dg by (simp add: map_append [symmetric] upt_add_eq_append [symmetric]
        del: map_append)
  have len: "length (concat (diagonals st @ [diagonal])) = N + diagLen n m"
    using cc by simp
  show ?case
    unfolding push using s' l' cc len ih(3) ih(5) dg by simp
qed

lemma buildDiagonals_props:
  "length (diagonals (buildDiagonals n)) = n + n - 1"
  "d < n + n - 1 \<Longrightarrow> length (diagonals (buildDiagonals n) ! d) = diagLen n d"
  "concat (diagonals (buildDiagonals n))
     = map int [0..<length (concat (diagonals (buildDiagonals n)))]"
proof -
  have eq: "buildDiagonals n = buildAfter n (n + n - 1)"
    by (simp add: buildDiagonals_def buildAfter_def)
  have inv: "map length (diagonals (buildAfter n (n + n - 1))) = map (diagLen n) [0..<n + n - 1]"
    "concat (diagonals (buildAfter n (n + n - 1)))
       = map int [0..<length (concat (diagonals (buildAfter n (n + n - 1))))]"
    using build_invariant [of "n + n - 1" n] by simp_all
  from inv(1) have "length (map length (diagonals (buildAfter n (n + n - 1)))) = n + n - 1"
    by simp
  then show l: "length (diagonals (buildDiagonals n)) = n + n - 1"
    unfolding eq by simp
  show "concat (diagonals (buildDiagonals n))
     = map int [0..<length (concat (diagonals (buildDiagonals n)))]"
    unfolding eq by (rule inv(2))
  assume d: "d < n + n - 1"
  have "map length (diagonals (buildDiagonals n)) ! d = map (diagLen n) [0..<n + n - 1] ! d"
    unfolding eq inv(1) ..
  then show "length (diagonals (buildDiagonals n) ! d) = diagLen n d"
    using d l by simp
qed

lemma count_row:
  "length (filter (onDiag d) (map (\<lambda>j. (i, j)) [0..<n])) = (if i \<le> d \<and> d < i + n then 1 else 0)"
  by (induction n) (auto simp: onDiag_def)

lemma count_step:
  "min (Suc m) (d + 1) - (d + 1 - n)
   = min m (d + 1) - (d + 1 - n) + (if m \<le> d \<and> d < m + n then 1 else (0::nat))"
  by (auto simp: min_def)

lemma count_rows:
  "length (filter (onDiag d) (concat (map (\<lambda>i. map (\<lambda>j. (i, j)) [0..<n]) [0..<m])))
   = min m (d + 1) - (d + 1 - n)"
proof (induction m)
  case 0
  then show ?case by simp
next
  case (Suc m)
  have "length (filter (onDiag d) (concat (map (\<lambda>i. map (\<lambda>j. (i, j)) [0..<n]) [0..<Suc m])))
        = length (filter (onDiag d) (concat (map (\<lambda>i. map (\<lambda>j. (i, j)) [0..<n]) [0..<m])))
          + length (filter (onDiag d) (map (\<lambda>j. (m, j)) [0..<n]))"
    by (simp del: filter_map)
  also have "\<dots> = min m (d + 1) - (d + 1 - n) + (if m \<le> d \<and> d < m + n then 1 else 0)"
    by (simp only: Suc.IH count_row)
  also have "\<dots> = min (Suc m) (d + 1) - (d + 1 - n)"
    by (rule count_step [symmetric])
  finally show ?case .
qed

lemma count_cells:
  "d < n + n - 1 \<Longrightarrow> length (filter (onDiag d) (cellsOf n)) = diagLen n d"
  unfolding cellsOf_def count_rows by (auto simp: diagLen_def)


lemma mset_concat_update:
  "i < length xss \<Longrightarrow> mset (concat (xss[i := ys])) + mset (xss ! i) = mset (concat xss) + mset ys"
proof (induction xss arbitrary: i)
  case Nil
  then show ?case by simp
next
  case (Cons xs xss)
  then show ?case by (cases i) (simp_all add: ac_simps)
qed

lemma mset_nth_update:
  "j < length xs \<Longrightarrow> add_mset (xs ! j) (mset (xs[j := v])) = add_mset v (mset xs)"
proof (induction xs arbitrary: j)
  case Nil
  then show ?case by simp
next
  case (Cons x xs)
  then show ?case by (cases j) (simp_all add: add_mset_commute)
qed

lemma mset_cell_update:
  assumes "i < length M" "j < length (M ! i)"
  shows "add_mset (M ! i ! j) (mset (concat (M[i := (M ! i)[j := v]])))
         = add_mset v (mset (concat M))"
proof -
  have "mset (concat (M[i := (M ! i)[j := v]])) + mset (M ! i)
        = mset (concat M) + mset ((M ! i)[j := v])"
    using assms(1) by (rule mset_concat_update)
  then have "add_mset (M ! i ! j) (mset (concat (M[i := (M ! i)[j := v]])) + mset (M ! i))
        = mset (concat M) + add_mset v (mset (M ! i))"
    using mset_nth_update [OF assms(2), of v] by simp
  then show ?thesis by simp
qed

lemma takeFrom_nonempty:
  assumes "xs \<noteq> []"
  obtains v rest where "takeFrom xs d = (Some v, rest)" "mset xs = add_mset v (mset rest)"
    "Suc (length rest) = length xs"
proof (cases "d mod 2 \<noteq> 0")
  case True
  obtain x rest where "xs = x # rest" using assms by (cases xs) auto
  with True have "takeFrom xs d = (Some x, rest)" "mset xs = add_mset x (mset rest)"
    "Suc (length rest) = length xs"
    by (simp_all add: takeFrom_def)
  then show ?thesis by (rule that)
next
  case False
  obtain ys y where "xs = ys @ [y]" using assms by (cases xs rule: rev_cases) auto
  with False have "takeFrom xs d = (Some (last xs), butlast xs)"
    "mset xs = add_mset (last xs) (mset (butlast xs))" "Suc (length (butlast xs)) = length xs"
    by (simp_all add: takeFrom_def)
  then show ?thesis by (rule that)
qed

lemma concat_all_empty: "\<forall>d<length D. D ! d = [] \<Longrightarrow> concat D = []"
  by (auto simp: in_set_conv_nth)

lemma fill_all:
  assumes "distinct cs"
    and "\<forall>c\<in>set cs. fst c < length M \<and> snd c < length (M ! fst c) \<and> fst c + snd c < length D"
    and "\<forall>c\<in>set cs. M ! fst c ! snd c = Some 0"
    and "\<forall>d<length D. length (D ! d) = length (filter (onDiag d) cs)"
  shows "\<exists>D' M'. foldOpt fillCell (D, M) cs = Some (D', M')
           \<and> map length M' = map length M
           \<and> mset (concat M') + replicate_mset (length cs) (Some 0)
               = mset (concat M) + mset (map Some (concat D))"
  using assms
proof (induction cs arbitrary: D M)
  case Nil
  then have "concat D = []" by (intro concat_all_empty) simp
  then show ?case by simp
next
  case (Cons c cs)
  obtain i j where c: "c = (i, j)" by (cases c)
  define d where "d = i + j"
  have rng: "i < length M" "j < length (M ! i)" "d < length D"
    using Cons.prems(2) c d_def by simp_all
  have zero: "M ! i ! j = Some 0" using Cons.prems(3) c by simp
  have "length (D ! d) = length (filter (onDiag d) (c # cs))"
    using Cons.prems(4) rng(3) by blast
  then have "D ! d \<noteq> []" using c d_def by (auto simp: onDiag_def)
  then obtain v rest where tk: "takeFrom (D ! d) d = (Some v, rest)"
    and ms: "mset (D ! d) = add_mset v (mset rest)"
    and ln: "Suc (length rest) = length (D ! d)"
    by (rule takeFrom_nonempty)
  define D1 where "D1 = D[d := rest]"
  define M1 where "M1 = M[i := (M ! i)[j := Some v]]"
  have stp: "fillCell (D, M) c = Some (D1, M1)"
    using rng(3) tk by (simp add: fillCell_def c d_def [symmetric] D1_def M1_def)
  have lenM1: "map length M1 = map length M"
    unfolding M1_def using rng(1) by (simp add: map_update list_update_same_conv)
  have p1: "distinct cs" using Cons.prems(1) by simp
  have p2: "\<forall>c'\<in>set cs. fst c' < length M1 \<and> snd c' < length (M1 ! fst c')
              \<and> fst c' + snd c' < length D1"
  proof
    fix c' assume c': "c' \<in> set cs"
    then have r: "fst c' < length M" "snd c' < length (M ! fst c')" "fst c' + snd c' < length D"
      using Cons.prems(2) by simp_all
    have "length (M1 ! fst c') = length (M ! fst c')"
      using r(1) rng(1) by (cases "fst c' = i") (simp_all add: M1_def)
    then show "fst c' < length M1 \<and> snd c' < length (M1 ! fst c') \<and> fst c' + snd c' < length D1"
      using r by (simp add: M1_def D1_def)
  qed
  have p3: "\<forall>c'\<in>set cs. M1 ! fst c' ! snd c' = Some 0"
  proof
    fix c' assume c': "c' \<in> set cs"
    then have ne: "c' \<noteq> (i, j)" using Cons.prems(1) c by auto
    have z: "M ! fst c' ! snd c' = Some 0" using Cons.prems(3) c' by simp
    have r: "fst c' < length M" using Cons.prems(2) c' by simp
    show "M1 ! fst c' ! snd c' = Some 0"
    proof (cases "fst c' = i")
      case True
      then have "snd c' \<noteq> j" using ne by (cases c') auto
      then show ?thesis using True z rng(1) by (simp add: M1_def)
    next
      case False
      then show ?thesis using z by (simp add: M1_def)
    qed
  qed
  have p4: "\<forall>d'<length D1. length (D1 ! d') = length (filter (onDiag d') cs)"
  proof (intro allI impI)
    fix d' assume d': "d' < length D1"
    then have "length (D ! d') = length (filter (onDiag d') (c # cs))"
      using Cons.prems(4) by (simp add: D1_def)
    then show "length (D1 ! d') = length (filter (onDiag d') cs)"
      using ln rng(3) d' c d_def by (cases "d' = d") (auto simp: D1_def onDiag_def)
  qed
  obtain D' M' where run: "foldOpt fillCell (D1, M1) cs = Some (D', M')"
    and lenM': "map length M' = map length M1"
    and bal: "mset (concat M') + replicate_mset (length cs) (Some 0)
               = mset (concat M1) + mset (map Some (concat D1))"
    using Cons.IH [OF p1 p2 p3 p4] by blast
  have m1: "add_mset (Some 0) (mset (concat M1)) = add_mset (Some v) (mset (concat M))"
    using mset_cell_update [OF rng(1) rng(2), of "Some v"] zero by (simp add: M1_def)
  have "mset (concat D1) + mset (D ! d) = mset (concat D) + mset rest"
    unfolding D1_def using rng(3) by (rule mset_concat_update)
  then have d1: "add_mset v (mset (concat D1)) = mset (concat D)"
    using ms by simp
  have "mset (concat M') + replicate_mset (length (c # cs)) (Some 0)
        = add_mset (Some 0) (mset (concat M1)) + mset (map Some (concat D1))"
    using bal by simp
  also have "\<dots> = add_mset (Some v) (mset (concat M)) + mset (map Some (concat D1))"
    by (simp only: m1)
  also have "\<dots> = mset (concat M) + mset (map Some (v # concat D1))"
    by simp
  also have "mset (map Some (v # concat D1)) = mset (map Some (concat D))"
    using d1 by (metis mset.simps(2) mset_map)
  finally have "mset (concat M') + replicate_mset (length (c # cs)) (Some 0)
        = mset (concat M) + mset (map Some (concat D))" .
  then show ?case using stp run lenM' lenM1 by simp
qed


lemma cellsOf_product: "cellsOf n = List.product [0..<n] [0..<n]"
  by (simp add: cellsOf_def product_concat_map)

lemma concat_replicate_replicate: "concat (replicate n (replicate m x)) = replicate (n * m) x"
  by (induction n) (simp_all add: replicate_add)

section \<open>Brace expansion: a loop that does not end\<close>

lemma replaceBracket_self: "replaceBracket ''{$&,$&}'' = [''{$&,$&}'', ''{$&,$&}'']"
  by code_simp

lemma concat_replicate_pair: "concat (replicate k [s, s]) = replicate (2 * k) s"
  by (induction k) simp_all

lemma whileFlag_copies_None:
  assumes ret: "whileFlag cs = Some ys"
  shows "\<not> (\<exists>k. cs = replicate (Suc k) ''{$&,$&}'')"
proof (rule whileFlag.raw_induct
    [where P = "\<lambda>cs ys. \<not> (\<exists>k. cs = replicate (Suc k) ''{$&,$&}'')", OF _ ret])
  fix f :: "string list \<Rightarrow> string list option" and cs ys
  assume IH: "\<And>x y. f x = Some y \<Longrightarrow> \<not> (\<exists>k. x = replicate (Suc k) ''{$&,$&}'')"
    and stp: "(if list_all (\<lambda>comb. length comb \<noteq> 1) (map replaceBracket cs)
               then f (concat (map replaceBracket cs))
               else Some (concat (map replaceBracket cs))) = Some ys"
  show "\<not> (\<exists>k. cs = replicate (Suc k) ''{$&,$&}'')"
  proof
    assume "\<exists>k. cs = replicate (Suc k) ''{$&,$&}''"
    then obtain k where cs: "cs = replicate (Suc k) ''{$&,$&}''" ..
    have m: "map replaceBracket cs = replicate (Suc k) [''{$&,$&}'', ''{$&,$&}'']"
      unfolding cs by (simp only: map_replicate replaceBracket_self)
    have c: "concat (map replaceBracket cs) = replicate (Suc (2 * k + 1)) ''{$&,$&}''"
      unfolding m concat_replicate_pair by simp
    have fl: "list_all (\<lambda>comb. length comb \<noteq> 1) (map replaceBracket cs)"
      unfolding m by (simp add: list_all_iff)
    from stp fl have "f (concat (map replaceBracket cs)) = Some ys" by simp
    then have "\<not> (\<exists>j. concat (map replaceBracket cs) = replicate (Suc j) ''{$&,$&}'')"
      by (rule IH)
    then show False using c by blast
  qed
qed

section \<open>Brace expansion: groups that are not nested\<close>

lemma getMatch_group:
  assumes "list_all notBrace body"
  shows "list_all notBrace p \<Longrightarrow>
         getMatch (p @ CHR ''{'' # body @ CHR ''}'' # rest) = Some (CHR ''{'' # body @ ''}'')"
proof (induction p)
  case Nil
  have b: "\<forall>c\<in>set body. notBrace c" using assms by (simp add: list_all_iff)
  have e: "CHR ''}'' # rest = [] \<or> \<not> notBrace (hd (CHR ''}'' # rest))"
    by (simp add: notBrace_def)
  have t: "takeWhile notBrace (body @ CHR ''}'' # rest) = body"
    using b e by (rule takeWhile_prefix)
  have d: "dropWhile notBrace (body @ CHR ''}'' # rest) = CHR ''}'' # rest"
    using b e by (rule dropWhile_prefix)
  show ?case by (simp add: matchHere_def t d)
next
  case (Cons c p)
  then have "c \<noteq> CHR ''{''" by (simp add: notBrace_def)
  then have "matchHere (c # p @ CHR ''{'' # body @ CHR ''}'' # rest) = None"
    by (simp add: matchHere_def)
  then show ?case using Cons by simp
qed

lemma getMatch_plain: "list_all notBrace s \<Longrightarrow> getMatch s = None"
  by (induction s) (simp_all add: matchHere_def notBrace_def)

lemma findFirst_group:
  "list_all notBrace p \<Longrightarrow>
   findFirst (CHR ''{'' # t) passed (p @ CHR ''{'' # t @ rest) = Some (rev passed @ p, rest)"
proof (induction p arbitrary: passed)
  case Nil
  then show ?case by simp
next
  case (Cons c p)
  then have "c \<noteq> CHR ''{''" by (simp add: notBrace_def)
  then show ?case using Cons by simp
qed

lemma getSubstitution_plain:
  "CHR ''$'' \<notin> set arg \<Longrightarrow> getSubstitution m b a arg = arg"
  by (induction m b a arg rule: getSubstitution.induct) auto

lemma join_plain:
  "\<forall>a\<in>set alts. list_all notBrace a \<Longrightarrow> list_all notBrace (join alts)"
  by (induction alts rule: join.induct) (simp_all add: notBrace_def)

lemma plainAlt_facts:
  assumes "plainAlt a"
  shows "list_all notBrace a" "CHR '','' \<notin> set a" "CHR ''$'' \<notin> set a"
  using assms by (auto simp: plainAlt_def list_all_iff)

lemma openBracket_group:
  assumes "alts \<noteq> []" "\<forall>a\<in>set alts. CHR '','' \<notin> set a"
  shows "openBracket (CHR ''{'' # join alts @ ''}'') = alts"
  using splitOn_join [OF assms] by (simp add: openBracket_def butlast_append)

lemma replaceBracket_group:
  assumes p: "plainText p" and g: "plainGroup g"
  shows "replaceBracket (p @ render (g # gs) rest) = map (\<lambda>a. (p @ fst g @ a) @ render gs rest) (snd g)"
proof -
  define lit where "lit = fst g"
  define alts where "alts = snd g"
  have pl: "list_all notBrace (p @ lit)"
    using p g by (simp add: plainText_def plainGroup_def lit_def)
  have al: "\<forall>a\<in>set alts. plainAlt a"
    using g by (simp add: plainGroup_def alts_def list_all_iff)
  have ne: "alts \<noteq> []" using g by (auto simp: plainGroup_def alts_def)
  have jb: "list_all notBrace (join alts)"
    using al by (intro join_plain) (simp add: plainAlt_facts)
  have line: "p @ render (g # gs) rest
              = (p @ lit) @ CHR ''{'' # join alts @ CHR ''}'' # render gs rest"
    by (simp add: lit_def alts_def)
  have gm: "getMatch (p @ render (g # gs) rest) = Some (CHR ''{'' # join alts @ ''}'')"
    unfolding line using jb pl by (rule getMatch_group)
  have ob: "openBracket (CHR ''{'' # join alts @ ''}'') = alts"
    using ne al by (intro openBracket_group) (simp_all add: plainAlt_facts)
  have ff: "findFirst (CHR ''{'' # join alts @ ''}'') [] (p @ render (g # gs) rest)
            = Some (p @ lit, render gs rest)"
    unfolding line using findFirst_group [OF pl, of "join alts @ ''}''" "[]" "render gs rest"]
    by simp
  have m: "map (\<lambda>arg. replace (p @ render (g # gs) rest) (CHR ''{'' # join alts @ ''}'') arg) alts
        = map (\<lambda>a. (p @ lit @ a) @ render gs rest) alts"
  proof (rule map_cong [OF refl])
    fix a assume "a \<in> set alts"
    then have "CHR ''$'' \<notin> set a" using al by (simp add: plainAlt_facts)
    then show "replace (p @ render (g # gs) rest) (CHR ''{'' # join alts @ ''}'') a
               = (p @ lit @ a) @ render gs rest"
      unfolding replace_def ff by (simp add: getSubstitution_plain)
  qed
  have "replaceBracket (p @ render (g # gs) rest)
        = map (\<lambda>arg. replace (p @ render (g # gs) rest) (CHR ''{'' # join alts @ ''}'') arg) alts"
    by (simp only: replaceBracket_def gm combine_def ob option.case)
  then have "replaceBracket (p @ render (g # gs) rest)
        = map (\<lambda>a. (p @ lit @ a) @ render gs rest) alts"
    by (simp only: m)
  then show ?thesis by (simp only: lit_def alts_def)
qed

lemma replaceBracket_plain: "plainText s \<Longrightarrow> replaceBracket s = [s]"
  by (simp add: replaceBracket_def plainText_def getMatch_plain)


lemma append_eta: "(@) (x @ y) = (\<lambda>r. x @ y @ r)"
  by (rule ext) simp

lemma choices_regroup:
  "concat (map (\<lambda>q. map (\<lambda>r. q @ r) C) (concat (map (\<lambda>p. map (\<lambda>a. p @ lit @ a) alts) ps)))
   = concat (map (\<lambda>p. map (\<lambda>r. p @ r)
                          (concat (map (\<lambda>a. map (\<lambda>r. lit @ a @ r) C) alts))) ps)"
  by (induction ps) (simp_all add: map_concat comp_def append_eta)

lemma whileFlag_groups:
  "list_all plainGroup gs \<Longrightarrow> plainText rest \<Longrightarrow> ps \<noteq> [] \<Longrightarrow> list_all plainText ps \<Longrightarrow>
   whileFlag (map (\<lambda>p. p @ render gs rest) ps)
   = Some (concat (map (\<lambda>p. map (\<lambda>r. p @ r) (choices gs rest)) ps))"
proof (induction gs arbitrary: ps)
  case Nil
  have rb: "map replaceBracket (map (\<lambda>p. p @ render [] rest) ps) = map (\<lambda>p. [p @ rest]) ps"
  proof (simp, rule ballI)
    fix p assume "p \<in> set ps"
    then have "plainText (p @ rest)"
      using Nil.prems by (auto simp: plainText_def list_all_iff)
    then show "replaceBracket (p @ rest) = [p @ rest]" by (rule replaceBracket_plain)
  qed
  have fl: "list_all (\<lambda>comb. length comb \<noteq> 1) (map (\<lambda>p. [p @ rest]) ps) = False"
    using Nil.prems(3) by (cases ps) simp_all
  have cc: "concat (map (\<lambda>p. [p @ rest]) ps) = map (\<lambda>p. p @ rest) ps"
    by (induction ps) simp_all
  have res: "concat (map (\<lambda>p. map (\<lambda>r. p @ r) (choices [] rest)) ps) = map (\<lambda>p. p @ rest) ps"
    by (induction ps) simp_all
  show ?case
    by (subst whileFlag.simps) (simp only: rb fl cc res if_False)
next
  case (Cons g gs)
  define qs where "qs = concat (map (\<lambda>p. map (\<lambda>a. p @ fst g @ a) (snd g)) ps)"
  have g: "plainGroup g" and gs: "list_all plainGroup gs" using Cons.prems(1) by simp_all
  have alts: "2 \<le> length (snd g)" "\<forall>a\<in>set (snd g). plainAlt a"
    using g by (simp_all add: plainGroup_def list_all_iff)
  have rb: "map replaceBracket (map (\<lambda>p. p @ render (g # gs) rest) ps)
            = map (\<lambda>p. map (\<lambda>a. (p @ fst g @ a) @ render gs rest) (snd g)) ps"
    unfolding map_map comp_def
  proof (rule map_cong [OF refl])
    fix p assume "p \<in> set ps"
    then have "plainText p" using Cons.prems(4) by (simp add: list_all_iff)
    then show "replaceBracket (p @ render (g # gs) rest)
               = map (\<lambda>a. (p @ fst g @ a) @ render gs rest) (snd g)"
      using g by (rule replaceBracket_group)
  qed
  have fl: "list_all (\<lambda>comb. length comb \<noteq> 1)
              (map (\<lambda>p. map (\<lambda>a. (p @ fst g @ a) @ render gs rest) (snd g)) ps)"
    using alts(1) by (simp add: list_all_iff)
  have cc: "concat (map (\<lambda>p. map (\<lambda>a. (p @ fst g @ a) @ render gs rest) (snd g)) ps)
            = map (\<lambda>q. q @ render gs rest) qs"
    unfolding qs_def by (induction ps) (simp_all add: comp_def)
  have qne: "qs \<noteq> []"
  proof -
    obtain p ps' where "ps = p # ps'" using Cons.prems(3) by (cases ps) auto
    moreover obtain a as where "snd g = a # as" using alts(1) by (cases "snd g") auto
    ultimately show ?thesis by (simp add: qs_def)
  qed
  have qpl: "list_all plainText qs"
  proof -
    have "\<forall>q\<in>set qs. plainText q"
    proof
      fix q assume "q \<in> set qs"
      then obtain p a where "p \<in> set ps" "a \<in> set (snd g)" "q = p @ fst g @ a"
        by (auto simp: qs_def)
      moreover have "plainText (fst g)" using g by (simp add: plainGroup_def)
      ultimately show "plainText q"
        using Cons.prems(4) alts(2) plainAlt_facts(1)
        by (auto simp: plainText_def list_all_iff)
    qed
    then show ?thesis by (simp add: list_all_iff)
  qed
  have "whileFlag (map (\<lambda>p. p @ render (g # gs) rest) ps)
        = whileFlag (map (\<lambda>q. q @ render gs rest) qs)"
    by (subst whileFlag.simps) (simp only: rb fl cc if_True)
  also have "\<dots> = Some (concat (map (\<lambda>q. map (\<lambda>r. q @ r) (choices gs rest)) qs))"
    using gs Cons.prems(2) qne qpl by (rule Cons.IH)
  also have "concat (map (\<lambda>q. map (\<lambda>r. q @ r) (choices gs rest)) qs)
             = concat (map (\<lambda>p. map (\<lambda>r. p @ r) (choices (g # gs) rest)) ps)"
    unfolding qs_def by (simp only: choices.simps choices_regroup)
  finally show ?case .
qed

lemma findBracets_nonNested:
  assumes "nonNested gs rest"
  shows "findBracets (render gs rest) = Some (choices gs rest)"
proof -
  have "whileFlag (map (\<lambda>p. p @ render gs rest) [[]])
        = Some (concat (map (\<lambda>p. map (\<lambda>r. p @ r) (choices gs rest)) [[]]))"
    using assms by (intro whileFlag_groups) (simp_all add: nonNested_def plainText_def)
  moreover have "map ((@) []) (choices gs rest) = choices gs rest"
    by (rule map_idI) simp
  ultimately show ?thesis by (simp add: findBracets_def)
qed

lemma uniq_set: "set (uniq seen xs) = set xs - set seen"
  by (induction xs arbitrary: seen) auto

lemma uniq_distinct: "distinct (uniq seen xs)"
  by (induction xs arbitrary: seen) (auto simp: uniq_set)

lemma uniq_length: "length (uniq seen xs) \<le> length xs"
proof (induction xs arbitrary: seen)
  case Nil
  then show ?case by simp
next
  case (Cons x xs)
  then show ?case using Cons [of seen] Cons [of "x # seen"] by (simp add: le_SucI)
qed

lemma uniq_id: "distinct xs \<Longrightarrow> set xs \<inter> set seen = {} \<Longrightarrow> uniq seen xs = xs"
  by (induction xs arbitrary: seen) auto

lemma choices_length: "length (choices gs rest) = alternativeCounts gs"
  by (induction gs) (simp_all add: alternativeCounts_def length_concat comp_def sum_list_triv)

section \<open>Text wrapping: the words of the lines\<close>

lemma wordsFrom_boundary:
  "ys = [] \<or> isSpace (hd ys) \<Longrightarrow> wordsFrom cur (xs @ ys) = wordsFrom cur xs @ wordsOf ys"
proof (induction xs arbitrary: cur)
  case Nil
  then show ?case by (cases ys) (auto simp: wordsOf_def)
next
  case (Cons x xs)
  then show ?case by simp
qed

lemma wordsOf_boundary:
  "ys = [] \<or> isSpace (hd ys) \<Longrightarrow> wordsOf (xs @ ys) = wordsOf xs @ wordsOf ys"
  using wordsFrom_boundary [of ys "[]" xs] by (simp add: wordsOf_def)

lemma wordsOf_space: "isSpace c \<Longrightarrow> wordsOf (c # r) = wordsOf r"
  by (simp add: wordsOf_def)

lemma wordsFrom_word:
  "\<forall>c\<in>set w. \<not> isSpace c \<Longrightarrow> wordsFrom cur w = (if rev cur @ w = [] then [] else [rev cur @ w])"
  by (induction w arbitrary: cur) auto

lemma wordsOf_first:
  assumes "\<not> isSpace c"
  shows "wordsOf (c # r) = takeWhile (\<lambda>x. \<not> isSpace x) (c # r) # wordsOf (dropWhile (\<lambda>x. \<not> isSpace x) (c # r))"
proof -
  define w where "w = takeWhile (\<lambda>x. \<not> isSpace x) (c # r)"
  define rest where "rest = dropWhile (\<lambda>x. \<not> isSpace x) (c # r)"
  have s: "c # r = w @ rest" by (simp add: w_def rest_def)
  have wn: "\<forall>x\<in>set w. \<not> isSpace x" unfolding w_def by (auto dest: set_takeWhileD)
  have wne: "w \<noteq> []" using assms by (simp add: w_def)
  have b: "rest = [] \<or> isSpace (hd rest)"
    unfolding rest_def using hd_dropWhile [of "\<lambda>x. \<not> isSpace x" "c # r"] by blast
  have "wordsOf (w @ rest) = wordsOf w @ wordsOf rest" using b by (rule wordsOf_boundary)
  moreover have "wordsOf w = [w]" using wordsFrom_word [OF wn, of "[]"] wne by (simp add: wordsOf_def)
  ultimately have "wordsOf (c # r) = w # wordsOf rest" by (simp add: s)
  then show ?thesis by (simp only: w_def rest_def)
qed

lemma space_not_dot: "\<not> isDot c \<Longrightarrow> isSpace c"
  by (auto simp: isDot_def isSpace_def)

lemma longest_finds:
  "0 < k0 \<Longrightarrow> k0 \<le> m \<Longrightarrow> lookEnd s k0 \<Longrightarrow>
   \<exists>k. longest s m = Some k \<and> k0 \<le> k \<and> k \<le> m \<and> lookEnd s k"
proof (induction m)
  case 0
  then show ?case by simp
next
  case (Suc m)
  show ?case
  proof (cases "lookEnd s (Suc m)")
    case True
    then show ?thesis using Suc.prems by auto
  next
    case False
    then have "k0 \<noteq> Suc m" using Suc.prems(3) by auto
    then have "k0 \<le> m" using Suc.prems(2) by simp
    then obtain k where "longest s m = Some k" "k0 \<le> k" "k \<le> m" "lookEnd s k"
      using Suc.IH Suc.prems by blast
    then show ?thesis using False by auto
  qed
qed

lemma lookEnd_boundary: "lookEnd s k \<Longrightarrow> drop k s = [] \<or> isSpace (hd (drop k s))"
  by (auto simp: lookEnd_def split: list.splits)

lemma matchAt_word:
  assumes c: "\<not> isSpace c"
    and w: "length (takeWhile (\<lambda>x. \<not> isSpace x) (c # r)) \<le> columns"
  shows "\<exists>k. matchAt (c # r) columns = Some k \<and> 0 < k \<and> k \<le> columns \<and> lookEnd (c # r) k"
proof -
  define s where "s = c # r"
  define k0 where "k0 = length (takeWhile (\<lambda>x. \<not> isSpace x) s)"
  have pos: "0 < k0" using c by (simp add: k0_def s_def)
  have "takeWhile (\<lambda>x. \<not> isSpace x) s = takeWhile (\<lambda>x. \<not> isSpace x) (takeWhile isDot s)"
    by (induction s) (auto dest: space_not_dot)
  then have "k0 \<le> length (takeWhile isDot s)"
    unfolding k0_def by (metis length_takeWhile_le)
  then have le: "k0 \<le> min columns (length (takeWhile isDot s))"
    using w by (simp add: k0_def s_def)
  have "drop k0 s = dropWhile (\<lambda>x. \<not> isSpace x) s"
    unfolding k0_def by (rule dropWhile_eq_drop [symmetric])
  then have le0: "lookEnd s k0"
    using hd_dropWhile [of "\<lambda>x. \<not> isSpace x" s]
    by (cases "dropWhile (\<lambda>x. \<not> isSpace x) s") (auto simp: lookEnd_def)
  obtain k where "longest s (min columns (length (takeWhile isDot s))) = Some k"
    "k0 \<le> k" "k \<le> min columns (length (takeWhile isDot s))" "lookEnd s k"
    using longest_finds [OF pos le le0] by blast
  then show ?thesis using c pos by (auto simp: matchAt_def s_def)
qed

lemma scanLines_words:
  "\<forall>w\<in>set (wordsOf s). length w \<le> columns \<Longrightarrow>
   concat (map wordsOf (scanLines columns s)) = wordsOf s
   \<and> (\<forall>l\<in>set (scanLines columns s). length l \<le> columns)"
proof (induction columns s rule: scanLines.induct)
  case (1 columns)
  then show ?case by (simp add: wordsOf_def)
next
  case (2 columns c r)
  show ?case
  proof (cases "isSpace c")
    case True
    then have m: "matchAt (c # r) columns = None" by (simp add: matchAt_def)
    have "\<forall>w\<in>set (wordsOf r). length w \<le> columns"
      using "2.prems" True by (simp add: wordsOf_space)
    then show ?thesis using "2.IH"(1) [OF m] m True by (simp add: wordsOf_space)
  next
    case False
    have "takeWhile (\<lambda>x. \<not> isSpace x) (c # r) \<in> set (wordsOf (c # r))"
      using wordsOf_first [OF False] by simp
    then have "length (takeWhile (\<lambda>x. \<not> isSpace x) (c # r)) \<le> columns"
      using "2.prems" by blast
    then obtain k where m: "matchAt (c # r) columns = Some k" and k: "0 < k" "k \<le> columns"
      and e: "lookEnd (c # r) k"
      using matchAt_word [OF False] by blast
    have b: "drop k (c # r) = [] \<or> isSpace (hd (drop k (c # r)))"
      using e by (rule lookEnd_boundary)
    have sp: "wordsOf (c # r) = wordsOf (take k (c # r)) @ wordsOf (drop k (c # r))"
      using wordsOf_boundary [OF b, of "take k (c # r)"] by simp
    then have "\<forall>w\<in>set (wordsOf (drop k (c # r))). length w \<le> columns"
      using "2.prems" by simp
    then have ih: "concat (map wordsOf (scanLines columns (drop k (c # r)))) = wordsOf (drop k (c # r))"
      "\<forall>l\<in>set (scanLines columns (drop k (c # r))). length l \<le> columns"
      using "2.IH"(2) [OF m] by simp_all
    have sc: "scanLines columns (c # r) = take k (c # r) # scanLines columns (drop k (c # r))"
      using m by simp
    show ?thesis unfolding sc using ih sp k by simp
  qed
qed

lemma wordsOf_joinSpaces: "wordsOf (joinSpaces ls) = concat (map wordsOf ls)"
proof (induction ls rule: joinSpaces.induct)
  case 1
  then show ?case by (simp add: wordsOf_def)
next
  case (2 x)
  then show ?case by simp
next
  case (3 x y rest)
  have sp: "isSpace CHR '' ''" by (simp add: isSpace_def)
  have "wordsOf (x @ CHR '' '' # joinSpaces (y # rest))
        = wordsOf x @ wordsOf (CHR '' '' # joinSpaces (y # rest))"
    using sp by (intro wordsOf_boundary) simp
  also have "\<dots> = wordsOf x @ wordsOf (joinSpaces (y # rest))"
    using sp by (simp add: wordsOf_space)
  finally show ?case using 3 by simp
qed


lemma wordsFrom_nonempty: "\<forall>w\<in>set (wordsFrom cur s). w \<noteq> []"
  by (induction s arbitrary: cur) auto

section \<open>Results\<close>

text \<open>
  C6. The documented hands: five hearts from 4 to 8 are a straight flush; 2, 4, 5, A, 3 of
  mixed suits are a straight, the ace counting below the 2; A, K, Q, 2, 3 of mixed suits
  are a high card only.
\<close>

theorem poker_documented_hands:
  "getPokerHandRank [mkCard ''4'' HEART, mkCard ''5'' HEART, mkCard ''6'' HEART,
                     mkCard ''7'' HEART, mkCard ''8'' HEART] = StraightFlush
   \<and> getPokerHandRank [mkCard ''2'' HEART, mkCard ''4'' DIAMOND, mkCard ''5'' HEART,
                       mkCard ''A'' DIAMOND, mkCard ''3'' SPADE] = Straight
   \<and> getPokerHandRank [mkCard ''A'' HEART, mkCard ''K'' HEART, mkCard ''Q'' HEART,
                       mkCard ''2'' DIAMOND, mkCard ''3'' SPADE] = HighCard"
  by code_simp

text \<open>
  C7. The documented three-line block with the glyphs of the digits 1 to 9 parses to
  123456789.
\<close>

theorem parseBankAccount_documented:
  "parseBankAccount documentedAccount = 123456789"
  by code_simp

text \<open>
  C5. For every strictly ascending list of safe integers (absolute value below 2^53, the
  integers on which the arithmetic and the printing of the source are exact), reading
  the text returned by \<open>extractRanges\<close> back (a piece \<open>start-end\<close> as all integers from
  \<open>start\<close> to \<open>end\<close>, any other piece as the number it writes) gives the list again.
\<close>

theorem extractRanges_roundtrip:
  "sorted_wrt (<) xs \<Longrightarrow> list_all isSafeInteger xs \<Longrightarrow>
   parseRanges (fst (extractRanges (map Num xs))) = Some xs"
proof (cases xs)
  case Nil
  then show ?thesis by (simp add: extractRanges_def parseRanges_def)
next
  case (Cons x ys)
  assume asc: "sorted_wrt (<) xs"
  define gs where "gs = runs [x] ys"
  define toks where "toks = concat (map (\<lambda>g. pieces (map Num g)) gs)"
  have ne: "\<forall>g\<in>set gs. g \<noteq> []" unfolding gs_def by (rule runs_nonempty) simp
  have gs_ne: "gs \<noteq> []" unfolding gs_def by (rule runs_not_Nil)
  have "fst (extractRanges (map Num xs))
        = join (map toString (groupsFrom (map Num [x]) (map Num ys @ [Infinity])))"
    using Cons by (simp add: extractRanges_groups)
  also have "\<dots> = join (map toString (map (map Num) gs))"
    unfolding gs_def by (subst groupsFrom_runs) simp_all
  also have "\<dots> = join (map join (map (\<lambda>g. pieces (map Num g)) gs))"
    by (simp add: toString_pieces comp_def)
  also have "\<dots> = join toks"
    unfolding toks_def using ne by (intro join_concat) (simp add: pieces_nonempty)
  finally have text_eq: "fst (extractRanges (map Num xs)) = join toks" .
  obtain g gs' where g: "gs = g # gs'" using gs_ne by (cases gs) auto
  then have gne: "g \<noteq> []" using ne by simp
  have toks_ne: "toks \<noteq> []"
    unfolding toks_def using g gne by (simp add: pieces_nonempty)
  have nocomma: "\<forall>t\<in>set toks. CHR '','' \<notin> set t"
    unfolding toks_def using pieces_no_comma by auto
  have tok_ne: "\<forall>t\<in>set toks. t \<noteq> []"
  proof
    fix t assume "t \<in> set toks"
    then obtain h where "t \<in> set (pieces (map Num h))" unfolding toks_def by auto
    then show "t \<noteq> []"
      by (auto simp: pieces_def toString_def showInt_nonempty split: if_splits)
  qed
  then have "hd toks \<noteq> []" using toks_ne by (cases toks) auto
  then have jne: "join toks \<noteq> []" using toks_ne by (rule join_nonempty [rotated])
  have "collect (map parsePiece toks) = Some ([x..x] @ ys)"
    unfolding toks_def gs_def using asc Cons runs_roundtrip [of x x ys] by simp
  then show ?thesis
    using Cons jne text_eq by (simp add: parseRanges_def splitOn_join [OF toks_ne nocomma])
qed

theorem extractRanges_roundtrip_witness:
  "sorted_wrt (<) [-3, -2, -1, 0, 5, 7, 8, 9 :: int]
   \<and> list_all isSafeInteger [-3, -2, -1, 0, 5, 7, 8, 9]
   \<and> fst (extractRanges (map Num [-3, -2, -1, 0, 5, 7, 8, 9])) = ''-3-0,5,7-9''
   \<and> parseRanges (fst (extractRanges (map Num [-3, -2, -1, 0, 5, 7, 8, 9])))
       = Some [-3, -2, -1, 0, 5, 7, 8, 9]"
proof -
  have asc: "sorted_wrt (<) [-3, -2, -1, 0, 5, 7, 8, 9 :: int]" by simp
  have out: "fst (extractRanges (map Num [-3, -2, -1, 0, 5, 7, 8, 9])) = ''-3-0,5,7-9''"
    by code_simp
  have safe: "list_all isSafeInteger [-3, -2, -1, 0, 5, 7, 8, 9]"
    by (simp add: isSafeInteger_def)
  show ?thesis using asc safe out extractRanges_roundtrip [OF asc safe] by simp
qed

text \<open>
  C8 as stated fails: the call leaves the caller's array one element longer.
\<close>

theorem extractRanges_mutates_argument:
  "snd (extractRanges [Num 1, Num 4, Num 5]) \<noteq> [Num 1, Num 4, Num 5]"
  by (simp add: extractRanges_def Let_def)

text \<open>
  C8, amended. \<open>extractRanges\<close> changes its argument in one way only: it appends
  \<open>Infinity\<close>; the elements that were there stay in place.
\<close>

theorem extractRanges_appends_Infinity:
  "snd (extractRanges ns) = ns @ [Infinity]"
  by (simp add: extractRanges_def Let_def)

text \<open>
  C1 fails on the code in both directions. The tiles [0,1], [1,1], [1,1], [1,2] form a
  row in the order given, and \<open>canDominoesMakeRow\<close> returns false for them; the tiles
  [1,1], [2,2] form no row in any order, turned either way, and it returns true.
\<close>

theorem canDominoesMakeRow_misjudges:
  "makesRow [(0, 1), (1, 1), (1, 1), (1, 2)] [(0, 1), (1, 1), (1, 1), (1, 2)]
   \<and> canDominoesMakeRow [(0, 1), (1, 1), (1, 1), (1, 2)] = False
   \<and> canDominoesMakeRow [(1, 1), (2, 2)] = True
   \<and> (\<nexists>row. makesRow [(1, 1), (2, 2)] row)"
proof -
  have "makesRow [(0, 1), (1, 1), (1, 1), (1, 2)] [(0, 1), (1, 1), (1, 1), (1, 2)]"
    by (simp add: makesRow_def)
  moreover have "canDominoesMakeRow [(0, 1), (1, 1), (1, 1), (1, 2)] = False"
    by code_simp
  moreover have "canDominoesMakeRow [(1, 1), (2, 2)] = True"
    by code_simp
  ultimately show ?thesis using two_doubles_no_row by simp
qed

text \<open>
  C10. For nine digits written as a block, \<open>parseBankAccount\<close> returns the number the
  digit string denotes: it is below 10^9, and below 10^8 when the first digit is 0, so
  that a leading zero is not kept. The witness is the second documented block, with the
  digits 0, 2, 3, 0, 5, 6, 7, 8, 9 and the result 23056789.
\<close>

theorem parseBankAccount_value:
  assumes "length ds = 9" and "\<forall>d\<in>set ds. d < 10"
  shows "parseBankAccount (renderAccount ds) = digitsNumber ds
         \<and> parseBankAccount (renderAccount ds) < 10 ^ 9
         \<and> (hd ds = 0 \<longrightarrow> parseBankAccount (renderAccount ds) < 10 ^ 8)"
  using parseBankAccount_render [OF assms] digitsNumber_bounds(2,3) [OF assms] by simp

theorem parseBankAccount_value_witness:
  "length [0, 2, 3, 0, 5, 6, 7, 8, 9 :: nat] = 9
   \<and> list_all (\<lambda>d. d < 10) [0, 2, 3, 0, 5, 6, 7, 8, 9 :: nat]
   \<and> renderAccount [0, 2, 3, 0, 5, 6, 7, 8, 9] =
       '' _  _  _  _  _  _  _  _  _ '' @ NL @
       ''| | _| _|| ||_ |_   ||_||_|'' @ NL @
       ''|_||_  _||_| _||_|  ||_| _|'' @ NL
   \<and> parseBankAccount (renderAccount [0, 2, 3, 0, 5, 6, 7, 8, 9]) = 23056789
   \<and> parseBankAccount (renderAccount [0, 2, 3, 0, 5, 6, 7, 8, 9]) < 10 ^ 8"
proof -
  have len: "length [0, 2, 3, 0, 5, 6, 7, 8, 9 :: nat] = 9" by simp
  have dig: "\<forall>d\<in>set [0, 2, 3, 0, 5, 6, 7, 8, 9 :: nat]. d < 10" by simp
  have block: "renderAccount [0, 2, 3, 0, 5, 6, 7, 8, 9] =
       '' _  _  _  _  _  _  _  _  _ '' @ NL @
       ''| | _| _|| ||_ |_   ||_||_|'' @ NL @
       ''|_||_  _||_| _||_|  ||_| _|'' @ NL"
    by code_simp
  have val: "digitsNumber [0, 2, 3, 0, 5, 6, 7, 8, 9] = 23056789"
    by (simp add: digitsNumber_def)
  show ?thesis
    using parseBankAccount_value [OF len dig] len dig block val by simp
qed

text \<open>
  C4. For every \<open>n\<close> (so for every \<open>n \<ge> 1\<close>) \<open>getZigZagMatrix n\<close> returns an \<open>n\<close> by \<open>n\<close>
  grid, no cell of which is \<open>undefined\<close>, whose cells taken together are the integers
  0 to \<open>n\<^sup>2 - 1\<close>, each once; for 1 it is [[0]] and for 2 it is [[0,1],[2,3]].
\<close>

theorem getZigZagMatrix_permutation:
  "(\<exists>m. getZigZagMatrix n = Some m \<and> length m = n \<and> list_all (\<lambda>row. length row = n) m
        \<and> mset (concat m) = mset (map (\<lambda>k. Some (int k)) [0..<n * n]))
   \<and> getZigZagMatrix 1 = Some [[Some 0]]
   \<and> getZigZagMatrix 2 = Some [[Some 0, Some 1], [Some 2, Some 3]]"
proof -
  define D where "D = diagonals (buildDiagonals n)"
  define M where "M = replicate n (replicate n (Some (0::int)))"
  define N where "N = length (concat D)"
  have lenD: "length D = n + n - 1" unfolding D_def by (rule buildDiagonals_props(1))
  have a1: "distinct (cellsOf n)" by (simp add: cellsOf_product distinct_product)
  have a2: "\<forall>c\<in>set (cellsOf n). fst c < length M \<and> snd c < length (M ! fst c)
              \<and> fst c + snd c < length D"
    unfolding lenD by (auto simp: cellsOf_product M_def)
  have a3: "\<forall>c\<in>set (cellsOf n). M ! fst c ! snd c = Some 0"
    by (auto simp: cellsOf_product M_def)
  have a4: "\<forall>d<length D. length (D ! d) = length (filter (onDiag d) (cellsOf n))"
    using lenD by (simp add: D_def buildDiagonals_props(2) count_cells)
  obtain D' M' where run: "foldOpt fillCell (D, M) (cellsOf n) = Some (D', M')"
    and lenM': "map length M' = map length M"
    and bal: "mset (concat M') + replicate_mset (length (cellsOf n)) (Some 0)
               = mset (concat M) + mset (map Some (concat D))"
    using fill_all [OF a1 a2 a3 a4] by blast
  have res: "getZigZagMatrix n = Some M'"
    using run by (simp add: getZigZagMatrix_def D_def M_def)
  have rows: "map length M' = replicate n n"
    using lenM' by (simp add: M_def)
  then have "length (map length M') = n" by simp
  then have len: "length M' = n" by simp
  have "\<forall>row\<in>set M'. length row = n"
  proof
    fix row assume "row \<in> set M'"
    then have "length row \<in> set (map length M')" by simp
    then show "length row = n" unfolding rows by simp
  qed
  then have all: "list_all (\<lambda>row. length row = n) M'" by (simp add: list_all_iff)
  have "mset (concat M) = replicate_mset (n * n) (Some 0)"
    by (simp add: M_def concat_replicate_replicate)
  moreover have "length (cellsOf n) = n * n" by (simp add: cellsOf_product)
  ultimately have ms: "mset (concat M') = mset (map Some (concat D))"
    using bal by simp
  have cD: "concat D = map int [0..<N]"
    unfolding N_def D_def by (rule buildDiagonals_props(3))
  have "length (concat M') = sum_list (map length M')" by (simp add: length_concat)
  also have "\<dots> = n * n" unfolding rows by (simp add: sum_list_replicate)
  finally have "length (concat M') = n * n" .
  moreover have "length (concat M') = N"
    using ms cD by (metis length_map length_upt mset_eq_length minus_nat.diff_0)
  ultimately have "N = n * n" by simp
  then have "mset (concat M') = mset (map (\<lambda>k. Some (int k)) [0..<n * n])"
    using ms cD by (simp add: comp_def)
  then have gen: "\<exists>m. getZigZagMatrix n = Some m \<and> length m = n
        \<and> list_all (\<lambda>row. length row = n) m
        \<and> mset (concat m) = mset (map (\<lambda>k. Some (int k)) [0..<n * n])"
    using res len all by blast
  have one: "getZigZagMatrix 1 = Some [[Some 0]]" by code_simp
  have two: "getZigZagMatrix 2 = Some [[Some 0, Some 1], [Some 2, Some 3]]" by code_simp
  show ?thesis using gen one two by blast
qed

text \<open>
  C9 fails on the code. The string \<open>{$&,$&}\<close> has balanced braces, and each of its two
  alternatives is the text \<open>$&\<close>, which \<open>replace\<close> reads as the matched text: the rewrite
  returns the string itself twice, so the number of opening braces does not go down, the
  array of candidates doubles in every round and the loop of \<open>findBracets\<close> does not end.
\<close>

theorem expandBraces_never_returns:
  "replaceBracket ''{$&,$&}'' = [''{$&,$&}'', ''{$&,$&}'']
   \<and> expandBraces ''{$&,$&}'' = None"
proof (cases "whileFlag [''{$&,$&}'']")
  case None
  then show ?thesis by (simp add: expandBraces_def findBracets_def replaceBracket_self)
next
  case (Some ys)
  then have "\<not> (\<exists>k. [''{$&,$&}''] = replicate (Suc k) ''{$&,$&}'')"
    by (rule whileFlag_copies_None)
  moreover have "[''{$&,$&}''] = replicate (Suc 0) ''{$&,$&}''" by simp
  ultimately show ?thesis by blast
qed

text \<open>
  C2 as stated fails: \<open>{a,a}\<close> has one group with two alternatives, and one string is
  yielded, because both choices give the string \<open>a\<close> and the set keeps it once.
\<close>

theorem expandBraces_equal_alternatives:
  "render [([], [''a'', ''a''])] [] = ''{a,a}''
   \<and> nonNested [([], [''a'', ''a''])] []
   \<and> alternativeCounts [([], [''a'', ''a''])] = 2
   \<and> expandBraces ''{a,a}'' = Some [''a'']
   \<and> length [''a''] \<noteq> alternativeCounts [([], [''a'', ''a''])]"
  by code_simp

text \<open>
  C2, amended. No string is yielded more than once, whatever the input. For a string
  whose groups are not nested and have at least two alternatives each, none with a dollar
  sign in it, the strings yielded are exactly those obtained by choosing one alternative
  for each group; their number is at most the product of the numbers of alternatives, and
  it is that product when different choices give different strings.
\<close>

theorem expandBraces_nonNested:
  "(expandBraces str = Some ys \<longrightarrow> distinct ys)
   \<and> (nonNested gs rest \<longrightarrow>
        (\<exists>zs. expandBraces (render gs rest) = Some zs \<and> distinct zs
              \<and> set zs = set (choices gs rest)
              \<and> length zs \<le> alternativeCounts gs
              \<and> (distinct (choices gs rest) \<longrightarrow> length zs = alternativeCounts gs)))"
proof (intro conjI impI)
  assume "expandBraces str = Some ys"
  then show "distinct ys" by (auto simp: expandBraces_def uniq_distinct)
next
  assume nn: "nonNested gs rest"
  define zs where "zs = uniq [] (choices gs rest)"
  have ex: "expandBraces (render gs rest) = Some zs"
    using findBracets_nonNested [OF nn] by (simp add: expandBraces_def zs_def)
  have d: "distinct zs" unfolding zs_def by (rule uniq_distinct)
  have s: "set zs = set (choices gs rest)" unfolding zs_def by (simp add: uniq_set)
  have l: "length zs \<le> alternativeCounts gs"
    unfolding zs_def using uniq_length [of "[]" "choices gs rest"] by (simp add: choices_length)
  have e: "distinct (choices gs rest) \<longrightarrow> length zs = alternativeCounts gs"
    unfolding zs_def by (simp add: uniq_id choices_length)
  show "\<exists>zs. expandBraces (render gs rest) = Some zs \<and> distinct zs
              \<and> set zs = set (choices gs rest)
              \<and> length zs \<le> alternativeCounts gs
              \<and> (distinct (choices gs rest) \<longrightarrow> length zs = alternativeCounts gs)"
    using ex d s l e by blast
qed

theorem expandBraces_nonNested_witness:
  "expandBraces ''{a}{b,c}'' = Some [''a{b,c}'']
   \<and> distinct [''a{b,c}'']
   \<and> nonNested [(''~/'', [''Downloads'', ''Pictures'']), (''/*.'', [''jpg'', ''gif'', ''png''])] []
   \<and> render [(''~/'', [''Downloads'', ''Pictures'']), (''/*.'', [''jpg'', ''gif'', ''png''])] []
       = ''~/{Downloads,Pictures}/*.{jpg,gif,png}''
   \<and> distinct (choices [(''~/'', [''Downloads'', ''Pictures'']),
                          (''/*.'', [''jpg'', ''gif'', ''png''])] [])
   \<and> (\<exists>zs. expandBraces ''~/{Downloads,Pictures}/*.{jpg,gif,png}'' = Some zs \<and> distinct zs
          \<and> set zs = {''~/Downloads/*.jpg'', ''~/Downloads/*.gif'', ''~/Downloads/*.png'',
                        ''~/Pictures/*.jpg'', ''~/Pictures/*.gif'', ''~/Pictures/*.png''}
          \<and> length zs = 6)"
proof -
  define G where "G = [(''~/'', [''Downloads'', ''Pictures'']), (''/*.'', [''jpg'', ''gif'', ''png''])]"
  have one: "expandBraces ''{a}{b,c}'' = Some [''a{b,c}'']" by code_simp
  have nn: "nonNested G []" unfolding G_def by code_simp
  have r: "render G [] = ''~/{Downloads,Pictures}/*.{jpg,gif,png}''"
    unfolding G_def by code_simp
  have c: "choices G [] = [''~/Downloads/*.jpg'', ''~/Downloads/*.gif'', ''~/Downloads/*.png'',
                           ''~/Pictures/*.jpg'', ''~/Pictures/*.gif'', ''~/Pictures/*.png'']"
    unfolding G_def by code_simp
  have dc: "distinct (choices G [])" unfolding c by simp
  have n: "alternativeCounts G = 6" unfolding G_def by (simp add: alternativeCounts_def)
  have first: "distinct [''a{b,c}'']"
    using expandBraces_nonNested [of "''{a}{b,c}''" "[''a{b,c}'']" G "[]"] one by blast
  have "\<exists>zs. expandBraces (render G []) = Some zs \<and> distinct zs
          \<and> set zs = set (choices G []) \<and> length zs = alternativeCounts G"
    using expandBraces_nonNested [of "''{a}{b,c}''" "[''a{b,c}'']" G "[]"] nn dc by blast
  then have "\<exists>zs. expandBraces ''~/{Downloads,Pictures}/*.{jpg,gif,png}'' = Some zs \<and> distinct zs
          \<and> set zs = {''~/Downloads/*.jpg'', ''~/Downloads/*.gif'', ''~/Downloads/*.png'',
                        ''~/Pictures/*.jpg'', ''~/Pictures/*.gif'', ''~/Pictures/*.png''}
          \<and> length zs = 6"
    unfolding r c n by simp
  then show ?thesis using one first nn r dc unfolding G_def by blast
qed

text \<open>
  C3 as stated fails: the two words of \<open>a  b\<close> (two spaces) are no longer than 4, the
  one line yielded for 4 columns is the text itself, and it is not the normal form
  \<open>a b\<close> of the text.
\<close>

theorem wrapText_keeps_spaces:
  "list_all (\<lambda>w. length w \<le> 4) (wordsOf ''a  b'')
   \<and> wrapText ''a  b'' 4 = Inr [''a  b'']
   \<and> normalize ''a  b'' = ''a b''
   \<and> joinSpaces [''a  b''] \<noteq> normalize ''a  b''"
  by code_simp

text \<open>
  C3, amended. For every text with at least one word, all of whose words are at most
  \<open>columns\<close> long, \<open>wrapText\<close> yields lines; no line is longer than \<open>columns\<close>; the words
  of the lines, in order, are the words of the text, so that no word is split; and the
  lines joined with single spaces have the same normal form as the text. The runs of
  white space inside a line are kept as they are.
\<close>

theorem wrapText_words:
  assumes some: "wordsOf text \<noteq> []"
    and short: "\<forall>w\<in>set (wordsOf text). length w \<le> columns"
  shows "\<exists>ls. wrapText text columns = Inr ls
           \<and> (\<forall>l\<in>set ls. length l \<le> columns)
           \<and> concat (map wordsOf ls) = wordsOf text
           \<and> normalize (joinSpaces ls) = normalize text"
proof -
  define ls where "ls = scanLines columns text"
  obtain w where w: "w \<in> set (wordsOf text)" using some by (cases "wordsOf text") auto
  then have "w \<noteq> []" using wordsFrom_nonempty [of "[]" "text"] by (simp add: wordsOf_def)
  moreover have "length w \<le> columns" using short w by blast
  ultimately have pos: "columns \<noteq> 0" by (cases w) auto
  have sc: "concat (map wordsOf ls) = wordsOf text" "\<forall>l\<in>set ls. length l \<le> columns"
    unfolding ls_def using scanLines_words [OF short] by simp_all
  then have "ls \<noteq> []" using some by auto
  then have res: "wrapText text columns = Inr ls"
    using pos by (cases ls) (simp_all add: wrapText_def ls_def [symmetric])
  have "normalize (joinSpaces ls) = normalize text"
    by (simp add: normalize_def wordsOf_joinSpaces sc(1))
  then show ?thesis using res sc by blast
qed

theorem wrapText_words_witness:
  "wordsOf documentedText \<noteq> []
   \<and> list_all (\<lambda>w. length w \<le> 26) (wordsOf documentedText)
   \<and> wrapText documentedText 26
       = Inr [''The String global object'', ''is a constructor for'',
              ''strings, or a sequence of'', ''characters.'']
   \<and> concat (map wordsOf [''The String global object'', ''is a constructor for'',
                            ''strings, or a sequence of'', ''characters.''])
       = wordsOf documentedText
   \<and> normalize (joinSpaces [''The String global object'', ''is a constructor for'',
                              ''strings, or a sequence of'', ''characters.''])
       = normalize documentedText"
proof -
  have some: "wordsOf documentedText \<noteq> []" by code_simp
  have all: "list_all (\<lambda>w. length w \<le> 26) (wordsOf documentedText)" by code_simp
  then have short: "\<forall>w\<in>set (wordsOf documentedText). length w \<le> 26"
    by (simp add: list_all_iff)
  have run: "wrapText documentedText 26
       = Inr [''The String global object'', ''is a constructor for'',
              ''strings, or a sequence of'', ''characters.'']"
    by code_simp
  obtain ls where "wrapText documentedText 26 = Inr ls"
    and "concat (map wordsOf ls) = wordsOf documentedText"
    and "normalize (joinSpaces ls) = normalize documentedText"
    using wrapText_words [OF some short] by blast
  then show ?thesis using some all run by simp
qed

end
